theory Spec2Isabelle
  imports Main "HOL-Library.AList"
begin

section \<open>Search responses and the ordering of category keys\<close>

text \<open>
  The search page (\<^verbatim>\<open>src/App.vue\<close>) shows the result of a query as a total and a
  map from category keys to item lists. A JavaScript object with string keys is modelled
  by the list of its entries in enumeration order, which is what \<^verbatim>\<open>Object.entries\<close>
  returns (for the object of a response: the keys that are array indices first, in
  ascending order, then the other keys in the order of their creation);
  the items are values of an arbitrary type \<open>'v\<close> (\<^verbatim>\<open>any\<close> in the source).
  A response may lack its \<^verbatim>\<open>total\<close> or its \<^verbatim>\<open>merged_by_type\<close> field
  (\<open>None\<close>), and the response itself may be null (\<open>None\<close> of the option type).
\<close>

text \<open>
  Modelled from the spec: the types \<^verbatim>\<open>SearchResponse\<close> and \<^verbatim>\<open>MergedResults\<close> are
  declared outside the source file; the spec describes a response as a total count and a
  mapping from category key to a list of items, or as malformed or absent. The fields are
  the two that the source file reads.
\<close>

type_synonym 'v MergedResults = "(string \<times> 'v) list"

record 'v SearchResponse =
  total :: "int option"
  merged_by_type :: "'v MergedResults option"

definition diskSortOrder :: "string list" where
  "diskSortOrder =
     [''aliyun'', ''baidu'', ''quark'', ''115'', ''123'', ''xunlei'', ''mobile'',
      ''tianyi'', ''uc'', ''pikpak'', ''ed2k'', ''magnet'', ''other'']"

text \<open>The character class \<^verbatim>\<open>\d\<close> of a JavaScript regular expression: the ASCII digits.\<close>

definition isDigit :: "char \<Rightarrow> bool" where
  "isDigit c = (c \<in> set ''0123456789'')"

text \<open>\<^verbatim>\<open>/^\d+$/.test(key)\<close>: the key is a non-empty run of digits.\<close>

definition onlyDigits :: "string \<Rightarrow> bool" where
  "onlyDigits key = (key \<noteq> [] \<and> list_all isDigit key)"

definition normalizeKey :: "string \<Rightarrow> string" where
  "normalizeKey key = (if onlyDigits key then ''disk_'' @ key else key)"

text \<open>\<^verbatim>\<open>key.replace(/^disk_/, "")\<close>: one leading \<^verbatim>\<open>disk_\<close> is removed, if there is one.\<close>

definition denormalizeKey :: "string \<Rightarrow> string" where
  "denormalizeKey key = (if take 5 key = ''disk_'' then drop 5 key else key)"

text \<open>\<^verbatim>\<open>Array.prototype.indexOf\<close>: the first index of the element, or \<open>-1\<close>.\<close>

fun indexOf :: "'a list \<Rightarrow> 'a \<Rightarrow> int" where
  "indexOf [] x = - 1"
| "indexOf (y # ys) x =
     (if y = x then 0 else (let i = indexOf ys x in if i = - 1 then - 1 else i + 1))"

text \<open>The position \<^verbatim>\<open>aPos\<close> that the comparator of the sort gives a key.\<close>

definition sortPos :: "string \<Rightarrow> int" where
  "sortPos key =
     (let idx = indexOf diskSortOrder (denormalizeKey key)
      in if idx = - 1 then 999 else idx)"

text \<open>
  Steps 1 to 3 of \<^verbatim>\<open>updateSearchResults\<close>: the entries get their normalised keys, are
  sorted by \<^verbatim>\<open>aPos - bPos\<close> (\<^verbatim>\<open>Array.prototype.sort\<close> is stable, so this is the stable
  sort by position), and are assigned one by one to a fresh object by \<^verbatim>\<open>acc[k] = v\<close>.
  Assigning to a key that the object already has replaces the value and keeps the key's
  place. Assigning to the key \<^verbatim>\<open>__proto__\<close> calls the setter that every object inherits:
  it changes at most the prototype of the object and gives the object no key of that name.
  Every other key is created by the assignment, whatever the prototype is by then. The
  published map is modelled by the own entries of the object, in their order.
\<close>

definition normalizedEntries :: "'v MergedResults \<Rightarrow> 'v MergedResults" where
  "normalizedEntries merged = map (\<lambda>(k, v). (normalizeKey k, v)) merged"

definition sortedEntries :: "'v MergedResults \<Rightarrow> 'v MergedResults" where
  "sortedEntries merged = sort_key (\<lambda>(k, v). sortPos k) (normalizedEntries merged)"

definition assign :: "string \<Rightarrow> 'v \<Rightarrow> 'v MergedResults \<Rightarrow> 'v MergedResults" where
  "assign k v acc = (if k = ''__proto__'' then acc else AList.update k v acc)"

definition sortedMerged :: "'v MergedResults \<Rightarrow> 'v MergedResults" where
  "sortedMerged merged =
     foldl (\<lambda>acc (k, v). assign k v acc) [] (sortedEntries merged)"

text \<open>The entries of a response whose assignment gives the published object a key.\<close>

definition assignable :: "'v MergedResults \<Rightarrow> 'v MergedResults" where
  "assignable merged = filter (\<lambda>(k, v). k \<noteq> ''__proto__'') merged"

text \<open>The keys of a list of entries, each at its first occurrence only.\<close>

fun firstOccurrences :: "'a list \<Rightarrow> 'a list" where
  "firstOccurrences [] = []"
| "firstOccurrences (x # xs) = x # firstOccurrences (removeAll x xs)"


section \<open>The state of the search page and its event loop\<close>

text \<open>
  Modelled from the spec: the type \<^verbatim>\<open>SearchParams\<close> is declared outside the source
  file; the spec describes a request as a keyword and filter fields that the page only
  copies, and a source selector that the page overrides for each query.
\<close>

record SearchParams =
  kw :: string
  src :: "string option"
  filters :: "(string \<times> string) list"

datatype page = SearchPage | StatusPage | DocsPage

text \<open>
  The callbacks handed to \<^verbatim>\<open>setTimeout\<close>: the five-second timeout of \<^verbatim>\<open>handleSearch\<close>,
  and the closures \<^verbatim>\<open>executeSecondAllSearch\<close> and \<^verbatim>\<open>executeThirdAllSearch\<close> with the
  \<^verbatim>\<open>allParams\<close> they capture.
\<close>

datatype callback =
  LoadingTimeout
| ExecuteSecondAllSearch SearchParams
| ExecuteThirdAllSearch SearchParams

text \<open>
  What waits for the promise of a \<^verbatim>\<open>search\<close> call: the handlers of the TG query (with the
  \<^verbatim>\<open>startTime\<close> and \<^verbatim>\<open>allParams\<close> they capture), of the first ALL query issued after
  a TG response was shown, of the first ALL query issued after the TG query failed or was
  malformed, and the rest of \<^verbatim>\<open>executeSecondAllSearch\<close> and \<^verbatim>\<open>executeThirdAllSearch\<close>
  after their \<^verbatim>\<open>await\<close>.
\<close>

datatype continuation =
  TgSearch int SearchParams
| FirstAllSearch
| FirstAllSearchAfterTgFailure
| SecondAllSearch
| ThirdAllSearch

text \<open>
  The reactive variables of the component, and the part of the browser that the code
  talks to: the clock \<^verbatim>\<open>Date.now()\<close>, the pending timers (handle, due time, callback),
  the queries in flight (request number, parameters, continuation) and the counters that
  give out fresh timer handles and request numbers. A handler runs to its end at one
  clock value.
\<close>

record 'v state =
  loading :: bool
  searchResults_total :: int
  searchResults_mergedResults :: "'v MergedResults"
  searchTime :: "int option"
  isUpdating :: bool
  updateCount :: nat
  updateTimer :: "nat option"
  secondSearchTimeout :: "nat option"
  thirdSearchTimeout :: "nat option"
  lastSearchParams :: "SearchParams option"
  hasSearched :: bool
  isActivelySearching :: bool
  currentPage :: page
  keyword :: string
  now :: int
  timers :: "(nat \<times> int \<times> callback) list"
  requests :: "(nat \<times> SearchParams \<times> continuation) list"
  nextHandle :: nat
  nextRequest :: nat

text \<open>The state when the component is created, at clock value \<open>t0\<close>. The browser gives
  out timer handles from 1 on.\<close>

definition initialState :: "int \<Rightarrow> 'v state" where
  "initialState t0 =
     \<lparr> loading = False, searchResults_total = 0, searchResults_mergedResults = [],
       searchTime = None, isUpdating = False, updateCount = 0, updateTimer = None,
       secondSearchTimeout = None, thirdSearchTimeout = None, lastSearchParams = None,
       hasSearched = False, isActivelySearching = False, currentPage = SearchPage,
       keyword = [], now = t0, timers = [], requests = [], nextHandle = 1,
       nextRequest = 0 \<rparr>"

subsection \<open>Timers and queries\<close>

text \<open>
  \<^verbatim>\<open>setTimeout\<close> registers a callback that can run once the clock has reached the
  registration time plus the delay, and returns a fresh handle; \<^verbatim>\<open>clearTimeout\<close> removes
  the timer with the given handle, if it is pending.
\<close>

definition setTimeout :: "callback \<Rightarrow> int \<Rightarrow> 'v state \<Rightarrow> nat \<times> 'v state" where
  "setTimeout cb delay s =
     (nextHandle s,
      s\<lparr>timers := timers s @ [(nextHandle s, now s + delay, cb)],
        nextHandle := Suc (nextHandle s)\<rparr>)"

definition clearTimeout :: "nat \<Rightarrow> 'v state \<Rightarrow> 'v state" where
  "clearTimeout h s = s\<lparr>timers := filter (\<lambda>t. fst t \<noteq> h) (timers s)\<rparr>"

text \<open>
  Modelled from the spec: the function \<^verbatim>\<open>search\<close> is imported from outside the source
  file; the spec describes it as an abstract asynchronous query whose promise is fulfilled
  with a response or rejected. A call puts a query in flight, together with what the
  caller does with the promise.
\<close>

definition search :: "SearchParams \<Rightarrow> continuation \<Rightarrow> 'v state \<Rightarrow> 'v state" where
  "search params k s =
     s\<lparr>requests := requests s @ [(nextRequest s, params, k)],
       nextRequest := Suc (nextRequest s)\<rparr>"

subsection \<open>The functions of the component\<close>

text \<open>
  The three blocks \<^verbatim>\<open>if (h.value) { clearTimeout(h.value); h.value = null }\<close> of
  \<^verbatim>\<open>stopUpdate\<close>, one for each stored handle (a handle is cleared when it is neither null
  nor 0; \<^verbatim>\<open>clearInterval\<close> and \<^verbatim>\<open>clearTimeout\<close> work on the same handles), and the
  function itself.
\<close>

definition clearUpdateTimer :: "'v state \<Rightarrow> 'v state" where
  "clearUpdateTimer s =
     (case updateTimer s of
        Some h \<Rightarrow> if h \<noteq> 0 then (clearTimeout h s)\<lparr>updateTimer := None\<rparr> else s
      | None \<Rightarrow> s)"

definition clearSecondSearchTimeout :: "'v state \<Rightarrow> 'v state" where
  "clearSecondSearchTimeout s =
     (case secondSearchTimeout s of
        Some h \<Rightarrow> if h \<noteq> 0 then (clearTimeout h s)\<lparr>secondSearchTimeout := None\<rparr> else s
      | None \<Rightarrow> s)"

definition clearThirdSearchTimeout :: "'v state \<Rightarrow> 'v state" where
  "clearThirdSearchTimeout s =
     (case thirdSearchTimeout s of
        Some h \<Rightarrow> if h \<noteq> 0 then (clearTimeout h s)\<lparr>thirdSearchTimeout := None\<rparr> else s
      | None \<Rightarrow> s)"

definition stopUpdate :: "'v state \<Rightarrow> 'v state" where
  "stopUpdate s =
     (clearThirdSearchTimeout (clearSecondSearchTimeout (clearUpdateTimer s)))
       \<lparr>isUpdating := False, isActivelySearching := False\<rparr>"

text \<open>\<^verbatim>\<open>response.total || 0\<close>: a missing total counts as 0.\<close>

definition totalOrZero :: "'v SearchResponse \<Rightarrow> int" where
  "totalOrZero response = (case total response of None \<Rightarrow> 0 | Some t \<Rightarrow> t)"

definition updateSearchResults :: "'v SearchResponse option \<Rightarrow> 'v state \<Rightarrow> 'v state" where
  "updateSearchResults response s =
     (case response of
        None \<Rightarrow> s
      | Some r \<Rightarrow>
          (let s1 = s\<lparr>searchResults_total := totalOrZero r\<rparr>
           in case merged_by_type r of
                None \<Rightarrow> s1\<lparr>searchResults_mergedResults := []\<rparr>
              | Some merged \<Rightarrow> s1\<lparr>searchResults_mergedResults := sortedMerged merged\<rparr>))"

text \<open>\<^verbatim>\<open>response && response.total !== undefined\<close>\<close>

definition hasTotal :: "'v SearchResponse option \<Rightarrow> bool" where
  "hasTotal response = (case response of None \<Rightarrow> False | Some r \<Rightarrow> total r \<noteq> None)"

text \<open>\<^verbatim>\<open>response && response.total >= searchResults.total\<close>: the comparison is false
  for a missing total.\<close>

definition notFewer :: "'v SearchResponse option \<Rightarrow> 'v state \<Rightarrow> bool" where
  "notFewer response s =
     (case response of
        None \<Rightarrow> False
      | Some r \<Rightarrow> (case total r of None \<Rightarrow> False | Some t \<Rightarrow> searchResults_total s \<le> t))"

definition delayForSecondSearch :: "int \<Rightarrow> int \<Rightarrow> int" where
  "delayForSecondSearch currentTime firstAllSearchCompleteTime =
     max 0 (2000 - (currentTime - firstAllSearchCompleteTime))"

definition delayForThirdSearch :: "int \<Rightarrow> int \<Rightarrow> int" where
  "delayForThirdSearch currentTime secondAllSearchCompleteTime =
     max 0 (3000 - (currentTime - secondAllSearchCompleteTime))"

definition startSecondAllSearch :: "int \<Rightarrow> 'v state \<Rightarrow> 'v state" where
  "startSecondAllSearch firstAllSearchCompleteTime s =
     (case lastSearchParams s of
        None \<Rightarrow> s
      | Some params \<Rightarrow>
          (let s1 = s\<lparr>isUpdating := True, isActivelySearching := True, updateCount := 1\<rparr>;
               allParams = params\<lparr>src := Some ''all''\<rparr>;
               (h, s2) = setTimeout (ExecuteSecondAllSearch allParams)
                           (delayForSecondSearch (now s1) firstAllSearchCompleteTime) s1
           in s2\<lparr>secondSearchTimeout := Some h\<rparr>))"

definition startThirdAllSearch :: "int \<Rightarrow> 'v state \<Rightarrow> 'v state" where
  "startThirdAllSearch secondAllSearchCompleteTime s =
     (case lastSearchParams s of
        None \<Rightarrow> s
      | Some params \<Rightarrow>
          (let s1 = s\<lparr>updateCount := 2\<rparr>;
               allParams = params\<lparr>src := Some ''all''\<rparr>;
               (h, s2) = setTimeout (ExecuteThirdAllSearch allParams)
                           (delayForThirdSearch (now s1) secondAllSearchCompleteTime) s1
           in s2\<lparr>thirdSearchTimeout := Some h\<rparr>))"

text \<open>
  \<^verbatim>\<open>handleSearch\<close> up to the point where it returns: the TG query is in flight and the
  five-second timeout is pending. (\<^verbatim>\<open>search\<close> returns a promise, so the \<^verbatim>\<open>catch\<close> of the
  surrounding \<^verbatim>\<open>try\<close> is not entered.)
\<close>

definition handleSearch :: "SearchParams \<Rightarrow> 'v state \<Rightarrow> 'v state" where
  "handleSearch params s =
     (let s1 = stopUpdate s;
          s2 = s1\<lparr>keyword := kw params, hasSearched := True, isActivelySearching := True,
                  loading := True, searchResults_total := 0,
                  searchResults_mergedResults := [], searchTime := None,
                  lastSearchParams := Some params\<rparr>;
          startTime = now s2;
          tgParams = params\<lparr>src := Some ''tg''\<rparr>;
          allParams = params\<lparr>src := Some ''all''\<rparr>;
          s3 = search tgParams (TgSearch startTime allParams) s2
      in snd (setTimeout LoadingTimeout 5000 s3))"

definition resetToInitial :: "'v state \<Rightarrow> 'v state" where
  "resetToInitial s =
     (stopUpdate s)\<lparr>currentPage := SearchPage, hasSearched := False,
                     isActivelySearching := False, loading := False,
                     searchResults_total := 0, searchResults_mergedResults := [],
                     searchTime := None, isUpdating := False, updateCount := 0\<rparr>"

text \<open>
  The handlers that run when the promise of a query is fulfilled with a response. None of
  them throws, so the \<^verbatim>\<open>catch\<close> that follows a \<^verbatim>\<open>then\<close> runs only when the promise of
  the query itself is rejected.
\<close>

fun onResolve :: "continuation \<Rightarrow> 'v SearchResponse option \<Rightarrow> 'v state \<Rightarrow> 'v state" where
  "onResolve (TgSearch startTime allParams) response s =
     (if hasTotal response then
        (let s1 = updateSearchResults response s;
             s2 = s1\<lparr>searchTime := Some (now s1 - startTime), loading := False\<rparr>
         in search allParams FirstAllSearch s2)
      else search allParams FirstAllSearchAfterTgFailure (s\<lparr>loading := False\<rparr>))"
| "onResolve FirstAllSearch response s =
     (let firstAllSearchCompleteTime = now s;
          s1 = (if notFewer response s then updateSearchResults response s else s)
      in startSecondAllSearch firstAllSearchCompleteTime s1)"
| "onResolve FirstAllSearchAfterTgFailure response s =
     (if hasTotal response then
        (let s1 = updateSearchResults response s;
             firstAllSearchCompleteTime = now s1
         in startSecondAllSearch firstAllSearchCompleteTime s1)
      else s)"
| "onResolve SecondAllSearch response s =
     (let s1 = (if notFewer response s then updateSearchResults response s else s);
          secondAllSearchCompleteTime = now s1
      in startThirdAllSearch secondAllSearchCompleteTime s1)"
| "onResolve ThirdAllSearch response s =
     stopUpdate (if notFewer response s then updateSearchResults response s else s)"

text \<open>The handlers that run when the promise of a query is rejected.\<close>

fun onReject :: "continuation \<Rightarrow> 'v state \<Rightarrow> 'v state" where
  "onReject (TgSearch startTime allParams) s =
     search allParams FirstAllSearchAfterTgFailure (s\<lparr>loading := False\<rparr>)"
| "onReject FirstAllSearch s = startSecondAllSearch (now s) s"
| "onReject FirstAllSearchAfterTgFailure s = s\<lparr>isActivelySearching := False\<rparr>"
| "onReject SecondAllSearch s = stopUpdate s"
| "onReject ThirdAllSearch s = stopUpdate s"

text \<open>The callbacks of the timers.\<close>

fun onFire :: "callback \<Rightarrow> 'v state \<Rightarrow> 'v state" where
  "onFire LoadingTimeout s = (if loading s then s\<lparr>loading := False\<rparr> else s)"
| "onFire (ExecuteSecondAllSearch allParams) s =
     (case lastSearchParams s of
        None \<Rightarrow> stopUpdate s
      | Some _ \<Rightarrow> search allParams SecondAllSearch s)"
| "onFire (ExecuteThirdAllSearch allParams) s =
     (case lastSearchParams s of
        None \<Rightarrow> stopUpdate s
      | Some _ \<Rightarrow> search allParams ThirdAllSearch s)"

subsection \<open>Events\<close>

text \<open>
  What can happen to the page: the user starts a search, clicks the logo
  (\<^verbatim>\<open>resetToInitial\<close>), the component is unmounted (\<^verbatim>\<open>stopUpdate\<close>), a query in flight
  is fulfilled or rejected, a pending timer whose time has come fires, time passes.
  An event that cannot happen in a state (no such query in flight, no such timer pending,
  or the timer is not yet due) has no successor state.
\<close>

datatype 'v event =
  HandleSearch SearchParams
| ResetToInitial
| Unmounted
| Resolve nat "'v SearchResponse option"
| Reject nat
| Fire nat
| Advance nat

definition takeRequest :: "nat \<Rightarrow> 'v state \<Rightarrow> (continuation \<times> 'v state) option" where
  "takeRequest q s =
     (case find (\<lambda>r. fst r = q) (requests s) of
        None \<Rightarrow> None
      | Some (_, _, k) \<Rightarrow> Some (k, s\<lparr>requests := filter (\<lambda>r. fst r \<noteq> q) (requests s)\<rparr>))"

definition takeTimer :: "nat \<Rightarrow> 'v state \<Rightarrow> (callback \<times> 'v state) option" where
  "takeTimer h s =
     (case find (\<lambda>t. fst t = h) (timers s) of
        None \<Rightarrow> None
      | Some (_, due, cb) \<Rightarrow>
          if now s < due then None
          else Some (cb, s\<lparr>timers := filter (\<lambda>t. fst t \<noteq> h) (timers s)\<rparr>))"

fun step :: "'v event \<Rightarrow> 'v state \<Rightarrow> 'v state option" where
  "step (HandleSearch params) s = Some (handleSearch params s)"
| "step ResetToInitial s = Some (resetToInitial s)"
| "step Unmounted s = Some (stopUpdate s)"
| "step (Resolve q response) s =
     (case takeRequest q s of None \<Rightarrow> None | Some (k, s') \<Rightarrow> Some (onResolve k response s'))"
| "step (Reject q) s =
     (case takeRequest q s of None \<Rightarrow> None | Some (k, s') \<Rightarrow> Some (onReject k s'))"
| "step (Fire h) s =
     (case takeTimer h s of None \<Rightarrow> None | Some (cb, s') \<Rightarrow> Some (onFire cb s'))"
| "step (Advance d) s = Some (s\<lparr>now := now s + int d\<rparr>)"

fun run :: "'v event list \<Rightarrow> 'v state \<Rightarrow> 'v state option" where
  "run [] s = Some s"
| "run (e # es) s = (case step e s of None \<Rightarrow> None | Some s' \<Rightarrow> run es s')"


subsection \<open>States the page can be in\<close>

text \<open>
  What holds of the timers and queries in every state the page can reach: pending timers
  have distinct handles, positive and below the next handle to be given out; queries in
  flight have distinct numbers below the next number; a stored handle is positive and
  below the next handle; timers and queries exist only once a search has set
  \<^verbatim>\<open>lastSearchParams\<close>.
\<close>

definition wellFormed :: "'v state \<Rightarrow> bool" where
  "wellFormed s \<longleftrightarrow>
     (\<forall>t \<in> set (timers s). 0 < fst t \<and> fst t < nextHandle s) \<and>
     distinct (map fst (timers s)) \<and>
     (\<forall>r \<in> set (requests s). fst r < nextRequest s) \<and>
     distinct (map fst (requests s)) \<and>
     0 < nextHandle s \<and>
     (\<forall>h \<in> set_option (updateTimer s). 0 < h \<and> h < nextHandle s) \<and>
     (\<forall>h \<in> set_option (secondSearchTimeout s). 0 < h \<and> h < nextHandle s) \<and>
     (\<forall>h \<in> set_option (thirdSearchTimeout s). 0 < h \<and> h < nextHandle s) \<and>
     (lastSearchParams s = None \<longrightarrow> timers s = [] \<and> requests s = [])"

text \<open>Concrete requests and responses, for running the page on examples.\<close>

definition fooParams :: SearchParams where
  "fooParams = \<lparr> kw = ''foo'', src = None, filters = [] \<rparr>"

definition barParams :: SearchParams where
  "barParams = \<lparr> kw = ''bar'', src = None, filters = [] \<rparr>"

definition response :: "int \<Rightarrow> 'v MergedResults \<Rightarrow> 'v SearchResponse option" where
  "response t m = Some \<lparr> total = Some t, merged_by_type = Some m \<rparr>"

text \<open>
  A well-formed state in which all three handles are stored, the timers of the second and
  the third ALL query are pending beside a loading timeout, and results are on display.
\<close>

definition threeHandlesStored :: "nat state" where
  "threeHandlesStored =
     (initialState 0)
       \<lparr>loading := True, searchResults_total := 5,
        searchResults_mergedResults := [(''aliyun'', 1)], searchTime := Some 100,
        isUpdating := True, updateCount := 2, updateTimer := Some 1,
        secondSearchTimeout := Some 3, thirdSearchTimeout := Some 4,
        lastSearchParams := Some fooParams, hasSearched := True,
        isActivelySearching := True,
        timers := [(2, 5000, LoadingTimeout),
                   (3, 2000, ExecuteSecondAllSearch (fooParams\<lparr>src := Some ''all''\<rparr>)),
                   (4, 3000, ExecuteThirdAllSearch (fooParams\<lparr>src := Some ''all''\<rparr>))],
        nextHandle := 5\<rparr>"

text \<open>A timer that is pending after an event was pending before it, or its handle is new.\<close>

definition timersFrom :: "'v state \<Rightarrow> 'v state \<Rightarrow> bool" where
  "timersFrom s s' \<longleftrightarrow>
     nextHandle s \<le> nextHandle s' \<and>
     (\<forall>t \<in> set (timers s'). t \<in> set (timers s) \<or> nextHandle s \<le> fst t)"

text \<open>
  The queries whose response is shown only if its total is not below the displayed
  total: the ALL queries of a sequence whose TG response was shown.
\<close>

definition guarded :: "continuation \<Rightarrow> bool" where
  "guarded k \<longleftrightarrow> k = FirstAllSearch \<or> k = SecondAllSearch \<or> k = ThirdAllSearch"

definition onlyGuardedInFlight :: "'v state \<Rightarrow> bool" where
  "onlyGuardedInFlight s \<longleftrightarrow> (\<forall>x \<in> set (requests s). guarded (snd (snd x)))"

text \<open>The events by which the user ends the running sequence: a new search, a reset.\<close>

fun startsSearch :: "'v event \<Rightarrow> bool" where
  "startsSearch (HandleSearch params) = True"
| "startsSearch ResetToInitial = True"
| "startsSearch e = False"

definition sameSearch :: "'v event list \<Rightarrow> bool" where
  "sameSearch es \<longleftrightarrow> (\<forall>e \<in> set es. \<not> startsSearch e)"

text \<open>The totals of the responses that arrive in a list of events, in order.\<close>

fun receivedTotal :: "'v event \<Rightarrow> int list" where
  "receivedTotal (Resolve q (Some r)) = (case total r of None \<Rightarrow> [] | Some t \<Rightarrow> [t])"
| "receivedTotal e = []"

definition receivedTotals :: "'v event list \<Rightarrow> int list" where
  "receivedTotals es = concat (map receivedTotal es)"

text \<open>
  The events that end the loading state of the search whose TG query has the number \<open>q\<close>
  and whose loading timeout has the handle \<open>h\<close>: the TG query is fulfilled or rejected,
  or the timeout fires.
\<close>

fun endsLoading :: "nat \<Rightarrow> nat \<Rightarrow> 'v event \<Rightarrow> bool" where
  "endsLoading q h (Resolve q' r) = (q' = q)"
| "endsLoading q h (Reject q') = (q' = q)"
| "endsLoading q h (Fire h') = (h' = h)"
| "endsLoading q h e = False"

fun isTgSearch :: "continuation \<Rightarrow> bool" where
  "isTgSearch (TgSearch startTime allParams) = True"
| "isTgSearch k = False"

text \<open>No TG query of an earlier search is in flight and no loading timeout is pending.\<close>

definition nothingLoading :: "'v state \<Rightarrow> bool" where
  "nothingLoading s \<longleftrightarrow>
     (\<forall>x \<in> set (requests s). \<not> isTgSearch (snd (snd x))) \<and>
     (\<forall>t \<in> set (timers s). snd (snd t) \<noteq> LoadingTimeout)"

text \<open>
  While a search is loading: the TG queries in flight are the one with the number \<open>q\<close>,
  the loading timeouts pending are the one with the handle \<open>h\<close>, and both numbers have
  been given out.
\<close>

definition loadingTracked :: "nat \<Rightarrow> nat \<Rightarrow> 'v state \<Rightarrow> bool" where
  "loadingTracked q h s \<longleftrightarrow>
     q < nextRequest s \<and> h < nextHandle s \<and>
     (\<forall>x \<in> set (requests s). isTgSearch (snd (snd x)) = (fst x = q)) \<and>
     (\<forall>t \<in> set (timers s). (snd (snd t) = LoadingTimeout) = (fst t = h))"

text \<open>
  From \<open>s\<close> to \<open>s'\<close> no TG query and no loading timeout has been added: what is in
  flight or pending in \<open>s'\<close> was so in \<open>s\<close>, or it is new and of another kind.
\<close>

definition addsNoLoading :: "'v state \<Rightarrow> 'v state \<Rightarrow> bool" where
  "addsNoLoading s s' \<longleftrightarrow>
     nextRequest s \<le> nextRequest s' \<and> nextHandle s \<le> nextHandle s' \<and>
     (\<forall>x \<in> set (requests s').
        x \<in> set (requests s) \<or> (nextRequest s \<le> fst x \<and> isTgSearch (snd (snd x)) = False)) \<and>
     (\<forall>t \<in> set (timers s').
        t \<in> set (timers s) \<or> (nextHandle s \<le> fst t \<and> (snd (snd t) = LoadingTimeout) = False))"


section \<open>Well-formedness is an invariant\<close>

lemma wellFormed_initialState: "wellFormed (initialState t0)"
  by (simp add: wellFormed_def initialState_def)

lemma clearTimeout_fields [simp]:
  "timers (clearTimeout h s) = filter (\<lambda>t. fst t \<noteq> h) (timers s)"
  "requests (clearTimeout h s) = requests s"
  "nextHandle (clearTimeout h s) = nextHandle s"
  "nextRequest (clearTimeout h s) = nextRequest s"
  "updateTimer (clearTimeout h s) = updateTimer s"
  "secondSearchTimeout (clearTimeout h s) = secondSearchTimeout s"
  "thirdSearchTimeout (clearTimeout h s) = thirdSearchTimeout s"
  by (simp_all add: clearTimeout_def)

lemma clearTimeout_frame [simp]:
  "isUpdating (clearTimeout h s) = isUpdating s"
  "isActivelySearching (clearTimeout h s) = isActivelySearching s"
  "loading (clearTimeout h s) = loading s"
  "searchResults_total (clearTimeout h s) = searchResults_total s"
  "searchResults_mergedResults (clearTimeout h s) = searchResults_mergedResults s"
  "searchTime (clearTimeout h s) = searchTime s"
  "updateCount (clearTimeout h s) = updateCount s"
  "lastSearchParams (clearTimeout h s) = lastSearchParams s"
  "now (clearTimeout h s) = now s"
  by (simp_all add: clearTimeout_def)

lemma wellFormed_clearUpdateTimer: "wellFormed s \<Longrightarrow> wellFormed (clearUpdateTimer s)"
  by (auto simp: clearUpdateTimer_def wellFormed_def distinct_map_filter split: option.splits)

lemma wellFormed_clearSecondSearchTimeout:
  "wellFormed s \<Longrightarrow> wellFormed (clearSecondSearchTimeout s)"
  by (auto simp: clearSecondSearchTimeout_def wellFormed_def distinct_map_filter split: option.splits)

lemma wellFormed_clearThirdSearchTimeout:
  "wellFormed s \<Longrightarrow> wellFormed (clearThirdSearchTimeout s)"
  by (auto simp: clearThirdSearchTimeout_def wellFormed_def distinct_map_filter split: option.splits)

lemma wellFormed_flags [simp]:
  "wellFormed (s\<lparr>isUpdating := b, isActivelySearching := c\<rparr>) = wellFormed s"
  by (simp add: wellFormed_def)

lemma wellFormed_stopUpdate: "wellFormed s \<Longrightarrow> wellFormed (stopUpdate s)"
  by (simp add: stopUpdate_def wellFormed_clearUpdateTimer wellFormed_clearSecondSearchTimeout
        wellFormed_clearThirdSearchTimeout)

lemma updateSearchResults_frame [simp]:
  "loading (updateSearchResults r s) = loading s"
  "searchTime (updateSearchResults r s) = searchTime s"
  "isUpdating (updateSearchResults r s) = isUpdating s"
  "updateCount (updateSearchResults r s) = updateCount s"
  "updateTimer (updateSearchResults r s) = updateTimer s"
  "secondSearchTimeout (updateSearchResults r s) = secondSearchTimeout s"
  "thirdSearchTimeout (updateSearchResults r s) = thirdSearchTimeout s"
  "lastSearchParams (updateSearchResults r s) = lastSearchParams s"
  "isActivelySearching (updateSearchResults r s) = isActivelySearching s"
  "now (updateSearchResults r s) = now s"
  "timers (updateSearchResults r s) = timers s"
  "requests (updateSearchResults r s) = requests s"
  "nextHandle (updateSearchResults r s) = nextHandle s"
  "nextRequest (updateSearchResults r s) = nextRequest s"
  by (simp_all add: updateSearchResults_def Let_def split: option.splits)

lemma wellFormed_updateSearchResults [simp]:
  "wellFormed (updateSearchResults r s) = wellFormed s"
  by (simp add: wellFormed_def)

lemma search_fields [simp]:
  "requests (search p k s) = requests s @ [(nextRequest s, p, k)]"
  "nextRequest (search p k s) = Suc (nextRequest s)"
  "timers (search p k s) = timers s"
  "nextHandle (search p k s) = nextHandle s"
  "loading (search p k s) = loading s"
  "searchResults_total (search p k s) = searchResults_total s"
  "searchResults_mergedResults (search p k s) = searchResults_mergedResults s"
  "searchTime (search p k s) = searchTime s"
  "isUpdating (search p k s) = isUpdating s"
  "updateCount (search p k s) = updateCount s"
  "updateTimer (search p k s) = updateTimer s"
  "secondSearchTimeout (search p k s) = secondSearchTimeout s"
  "thirdSearchTimeout (search p k s) = thirdSearchTimeout s"
  "lastSearchParams (search p k s) = lastSearchParams s"
  "isActivelySearching (search p k s) = isActivelySearching s"
  "now (search p k s) = now s"
  by (simp_all add: search_def)

lemma wellFormed_search:
  "wellFormed s \<Longrightarrow> lastSearchParams s \<noteq> None \<Longrightarrow> wellFormed (search p k s)"
  by (auto simp: wellFormed_def less_Suc_eq)

lemma startSecondAllSearch_fields [simp]:
  "requests (startSecondAllSearch t s) = requests s"
  "nextRequest (startSecondAllSearch t s) = nextRequest s"
  "loading (startSecondAllSearch t s) = loading s"
  "searchResults_total (startSecondAllSearch t s) = searchResults_total s"
  "searchResults_mergedResults (startSecondAllSearch t s) = searchResults_mergedResults s"
  "searchTime (startSecondAllSearch t s) = searchTime s"
  "updateTimer (startSecondAllSearch t s) = updateTimer s"
  "thirdSearchTimeout (startSecondAllSearch t s) = thirdSearchTimeout s"
  "lastSearchParams (startSecondAllSearch t s) = lastSearchParams s"
  "now (startSecondAllSearch t s) = now s"
  by (simp_all add: startSecondAllSearch_def setTimeout_def Let_def split: option.splits)

lemma startThirdAllSearch_fields [simp]:
  "requests (startThirdAllSearch t s) = requests s"
  "nextRequest (startThirdAllSearch t s) = nextRequest s"
  "loading (startThirdAllSearch t s) = loading s"
  "searchResults_total (startThirdAllSearch t s) = searchResults_total s"
  "searchResults_mergedResults (startThirdAllSearch t s) = searchResults_mergedResults s"
  "searchTime (startThirdAllSearch t s) = searchTime s"
  "isUpdating (startThirdAllSearch t s) = isUpdating s"
  "isActivelySearching (startThirdAllSearch t s) = isActivelySearching s"
  "updateTimer (startThirdAllSearch t s) = updateTimer s"
  "secondSearchTimeout (startThirdAllSearch t s) = secondSearchTimeout s"
  "lastSearchParams (startThirdAllSearch t s) = lastSearchParams s"
  "now (startThirdAllSearch t s) = now s"
  by (simp_all add: startThirdAllSearch_def setTimeout_def Let_def split: option.splits)

lemma startSecondAllSearch_timers:
  "lastSearchParams s = Some params \<Longrightarrow>
     timers (startSecondAllSearch t s) =
       timers s @ [(nextHandle s, now s + delayForSecondSearch (now s) t,
                    ExecuteSecondAllSearch (params\<lparr>src := Some ''all''\<rparr>))]
     \<and> nextHandle (startSecondAllSearch t s) = Suc (nextHandle s)
     \<and> secondSearchTimeout (startSecondAllSearch t s) = Some (nextHandle s)
     \<and> isUpdating (startSecondAllSearch t s)
     \<and> isActivelySearching (startSecondAllSearch t s)
     \<and> updateCount (startSecondAllSearch t s) = 1"
  by (simp add: startSecondAllSearch_def setTimeout_def Let_def)

lemma startThirdAllSearch_timers:
  "lastSearchParams s = Some params \<Longrightarrow>
     timers (startThirdAllSearch t s) =
       timers s @ [(nextHandle s, now s + delayForThirdSearch (now s) t,
                    ExecuteThirdAllSearch (params\<lparr>src := Some ''all''\<rparr>))]
     \<and> nextHandle (startThirdAllSearch t s) = Suc (nextHandle s)
     \<and> thirdSearchTimeout (startThirdAllSearch t s) = Some (nextHandle s)
     \<and> updateCount (startThirdAllSearch t s) = 2"
  by (simp add: startThirdAllSearch_def setTimeout_def Let_def)

lemma wellFormed_startSecondAllSearch:
  "wellFormed s \<Longrightarrow> wellFormed (startSecondAllSearch t s)"
  by (auto simp: wellFormed_def startSecondAllSearch_def setTimeout_def Let_def less_Suc_eq
           split: option.splits)

lemma wellFormed_startThirdAllSearch:
  "wellFormed s \<Longrightarrow> wellFormed (startThirdAllSearch t s)"
  by (auto simp: wellFormed_def startThirdAllSearch_def setTimeout_def Let_def less_Suc_eq
           split: option.splits)

lemma wellFormed_handleSearch:
  assumes "wellFormed s"
  shows "wellFormed (handleSearch p s)"
proof -
  from assms have "wellFormed (stopUpdate s)"
    by (rule wellFormed_stopUpdate)
  then show ?thesis
    by (auto simp: handleSearch_def Let_def wellFormed_def search_def setTimeout_def less_Suc_eq)
qed

lemma wellFormed_resetToInitial:
  assumes "wellFormed s"
  shows "wellFormed (resetToInitial s)"
proof -
  from assms have "wellFormed (stopUpdate s)"
    by (rule wellFormed_stopUpdate)
  then show ?thesis
    by (simp add: resetToInitial_def wellFormed_def)
qed

lemma wellFormed_frame [simp]:
  "wellFormed (s\<lparr>loading := b\<rparr>) = wellFormed s"
  "wellFormed (s\<lparr>searchTime := x\<rparr>) = wellFormed s"
  "wellFormed (s\<lparr>isActivelySearching := b\<rparr>) = wellFormed s"
  "wellFormed (s\<lparr>now := t\<rparr>) = wellFormed s"
  by (simp_all add: wellFormed_def)

lemmas wellFormed_parts =
  wellFormed_search wellFormed_startSecondAllSearch wellFormed_startThirdAllSearch
  wellFormed_stopUpdate

lemma wellFormed_onResolve:
  "wellFormed s \<Longrightarrow> lastSearchParams s \<noteq> None \<Longrightarrow> wellFormed (onResolve k r s)"
  by (cases k) (simp_all add: Let_def wellFormed_parts)

lemma wellFormed_onReject:
  "wellFormed s \<Longrightarrow> lastSearchParams s \<noteq> None \<Longrightarrow> wellFormed (onReject k s)"
  by (cases k) (simp_all add: Let_def wellFormed_parts)

lemma wellFormed_onFire:
  "wellFormed s \<Longrightarrow> lastSearchParams s \<noteq> None \<Longrightarrow> wellFormed (onFire cb s)"
  by (cases cb) (simp_all add: Let_def wellFormed_parts split: option.splits)

lemma find_Some_mem: "find P xs = Some x \<Longrightarrow> x \<in> set xs \<and> P x"
  by (induction xs) (auto split: if_splits)

lemma takeRequest_SomeD:
  "takeRequest q s = Some (k, s') \<Longrightarrow>
     s' = s\<lparr>requests := filter (\<lambda>r. fst r \<noteq> q) (requests s)\<rparr> \<and>
     (\<exists>p. (q, p, k) \<in> set (requests s))"
  unfolding takeRequest_def
  by (cases "find (\<lambda>r. fst r = q) (requests s)") (auto dest!: find_Some_mem)

lemma takeTimer_SomeD:
  "takeTimer h s = Some (cb, s') \<Longrightarrow>
     s' = s\<lparr>timers := filter (\<lambda>t. fst t \<noteq> h) (timers s)\<rparr> \<and>
     (\<exists>due. (h, due, cb) \<in> set (timers s) \<and> due \<le> now s)"
  unfolding takeTimer_def
  by (cases "find (\<lambda>t. fst t = h) (timers s)") (auto dest!: find_Some_mem split: if_splits)

lemma wellFormed_filter_requests:
  "wellFormed s \<Longrightarrow> wellFormed (s\<lparr>requests := filter P (requests s)\<rparr>)"
  by (simp add: wellFormed_def distinct_map_filter)

lemma wellFormed_filter_timers:
  "wellFormed s \<Longrightarrow> wellFormed (s\<lparr>timers := filter P (timers s)\<rparr>)"
  by (simp add: wellFormed_def distinct_map_filter)

lemma wellFormed_has_params:
  "wellFormed s \<Longrightarrow> x \<in> set (requests s) \<or> y \<in> set (timers s) \<Longrightarrow> lastSearchParams s \<noteq> None"
  by (auto simp: wellFormed_def)

lemma wellFormed_step:
  assumes "wellFormed s" and "step e s = Some s'"
  shows "wellFormed s'"
proof (cases e)
  case (Resolve q r)
  with assms obtain k s0 where t: "takeRequest q s = Some (k, s0)" and s': "s' = onResolve k r s0"
    by (auto split: option.splits)
  from takeRequest_SomeD [OF t] obtain p
    where s0: "s0 = s\<lparr>requests := filter (\<lambda>r. fst r \<noteq> q) (requests s)\<rparr>"
      and "(q, p, k) \<in> set (requests s)"
    by blast
  with assms(1) have "lastSearchParams s0 \<noteq> None" "wellFormed s0"
    by (auto dest: wellFormed_has_params intro: wellFormed_filter_requests)
  then show ?thesis
    unfolding s' by (simp add: wellFormed_onResolve)
next
  case (Reject q)
  with assms obtain k s0 where t: "takeRequest q s = Some (k, s0)" and s': "s' = onReject k s0"
    by (auto split: option.splits)
  from takeRequest_SomeD [OF t] obtain p
    where s0: "s0 = s\<lparr>requests := filter (\<lambda>r. fst r \<noteq> q) (requests s)\<rparr>"
      and "(q, p, k) \<in> set (requests s)"
    by blast
  with assms(1) have "lastSearchParams s0 \<noteq> None" "wellFormed s0"
    by (auto dest: wellFormed_has_params intro: wellFormed_filter_requests)
  then show ?thesis
    unfolding s' by (simp add: wellFormed_onReject)
next
  case (Fire h)
  with assms obtain cb s0 where t: "takeTimer h s = Some (cb, s0)" and s': "s' = onFire cb s0"
    by (auto split: option.splits)
  from takeTimer_SomeD [OF t] obtain due
    where s0: "s0 = s\<lparr>timers := filter (\<lambda>t. fst t \<noteq> h) (timers s)\<rparr>"
      and "(h, due, cb) \<in> set (timers s)"
    by blast
  with assms(1) have "lastSearchParams s0 \<noteq> None" "wellFormed s0"
    by (auto dest: wellFormed_has_params intro: wellFormed_filter_timers)
  then show ?thesis
    unfolding s' by (simp add: wellFormed_onFire)
qed (use assms in \<open>auto simp: wellFormed_handleSearch wellFormed_resetToInitial wellFormed_stopUpdate\<close>)

lemma wellFormed_run: "wellFormed s \<Longrightarrow> run es s = Some s' \<Longrightarrow> wellFormed s'"
  by (induction es arbitrary: s) (auto split: option.splits dest: wellFormed_step)

lemma wellFormed_reachable: "run es (initialState t0) = Some s \<Longrightarrow> wellFormed s"
  using wellFormed_run [OF wellFormed_initialState] .


section \<open>Stopping the background update\<close>

lemma clearUpdateTimer_frame [simp]:
  "secondSearchTimeout (clearUpdateTimer s) = secondSearchTimeout s"
  "thirdSearchTimeout (clearUpdateTimer s) = thirdSearchTimeout s"
  "loading (clearUpdateTimer s) = loading s"
  "searchResults_total (clearUpdateTimer s) = searchResults_total s"
  "searchResults_mergedResults (clearUpdateTimer s) = searchResults_mergedResults s"
  "searchTime (clearUpdateTimer s) = searchTime s"
  "updateCount (clearUpdateTimer s) = updateCount s"
  "lastSearchParams (clearUpdateTimer s) = lastSearchParams s"
  "requests (clearUpdateTimer s) = requests s"
  "nextRequest (clearUpdateTimer s) = nextRequest s"
  "nextHandle (clearUpdateTimer s) = nextHandle s"
  "now (clearUpdateTimer s) = now s"
  by (simp_all add: clearUpdateTimer_def split: option.splits)

lemma clearSecondSearchTimeout_frame [simp]:
  "updateTimer (clearSecondSearchTimeout s) = updateTimer s"
  "thirdSearchTimeout (clearSecondSearchTimeout s) = thirdSearchTimeout s"
  "loading (clearSecondSearchTimeout s) = loading s"
  "searchResults_total (clearSecondSearchTimeout s) = searchResults_total s"
  "searchResults_mergedResults (clearSecondSearchTimeout s) = searchResults_mergedResults s"
  "searchTime (clearSecondSearchTimeout s) = searchTime s"
  "updateCount (clearSecondSearchTimeout s) = updateCount s"
  "lastSearchParams (clearSecondSearchTimeout s) = lastSearchParams s"
  "requests (clearSecondSearchTimeout s) = requests s"
  "nextRequest (clearSecondSearchTimeout s) = nextRequest s"
  "nextHandle (clearSecondSearchTimeout s) = nextHandle s"
  "now (clearSecondSearchTimeout s) = now s"
  by (simp_all add: clearSecondSearchTimeout_def split: option.splits)

lemma clearThirdSearchTimeout_frame [simp]:
  "updateTimer (clearThirdSearchTimeout s) = updateTimer s"
  "secondSearchTimeout (clearThirdSearchTimeout s) = secondSearchTimeout s"
  "loading (clearThirdSearchTimeout s) = loading s"
  "searchResults_total (clearThirdSearchTimeout s) = searchResults_total s"
  "searchResults_mergedResults (clearThirdSearchTimeout s) = searchResults_mergedResults s"
  "searchTime (clearThirdSearchTimeout s) = searchTime s"
  "updateCount (clearThirdSearchTimeout s) = updateCount s"
  "lastSearchParams (clearThirdSearchTimeout s) = lastSearchParams s"
  "requests (clearThirdSearchTimeout s) = requests s"
  "nextRequest (clearThirdSearchTimeout s) = nextRequest s"
  "nextHandle (clearThirdSearchTimeout s) = nextHandle s"
  "now (clearThirdSearchTimeout s) = now s"
  by (simp_all add: clearThirdSearchTimeout_def split: option.splits)

lemma clear_own_handle:
  "updateTimer s \<noteq> Some 0 \<Longrightarrow> updateTimer (clearUpdateTimer s) = None"
  "secondSearchTimeout s \<noteq> Some 0 \<Longrightarrow> secondSearchTimeout (clearSecondSearchTimeout s) = None"
  "thirdSearchTimeout s \<noteq> Some 0 \<Longrightarrow> thirdSearchTimeout (clearThirdSearchTimeout s) = None"
  by (simp_all add: clearUpdateTimer_def clearSecondSearchTimeout_def clearThirdSearchTimeout_def
        split: option.splits)

lemma stopUpdate_frame [simp]:
  "isUpdating (stopUpdate s) = False"
  "isActivelySearching (stopUpdate s) = False"
  "loading (stopUpdate s) = loading s"
  "searchResults_total (stopUpdate s) = searchResults_total s"
  "searchResults_mergedResults (stopUpdate s) = searchResults_mergedResults s"
  "searchTime (stopUpdate s) = searchTime s"
  "updateCount (stopUpdate s) = updateCount s"
  "lastSearchParams (stopUpdate s) = lastSearchParams s"
  "requests (stopUpdate s) = requests s"
  "nextRequest (stopUpdate s) = nextRequest s"
  "nextHandle (stopUpdate s) = nextHandle s"
  "now (stopUpdate s) = now s"
  by (simp_all add: stopUpdate_def)

lemma stopUpdate_handles:
  assumes "wellFormed s"
  shows "updateTimer (stopUpdate s) = None"
    and "secondSearchTimeout (stopUpdate s) = None"
    and "thirdSearchTimeout (stopUpdate s) = None"
proof -
  from assms have nz: "updateTimer s \<noteq> Some 0" "secondSearchTimeout s \<noteq> Some 0"
      "thirdSearchTimeout s \<noteq> Some 0"
    by (auto simp: wellFormed_def)
  show "updateTimer (stopUpdate s) = None"
    using nz by (simp add: stopUpdate_def clear_own_handle)
  show "secondSearchTimeout (stopUpdate s) = None"
    using nz by (simp add: stopUpdate_def clear_own_handle)
  show "thirdSearchTimeout (stopUpdate s) = None"
    using nz by (simp add: stopUpdate_def clear_own_handle)
qed


lemma clear_noop:
  "updateTimer s \<in> {None, Some 0} \<Longrightarrow> clearUpdateTimer s = s"
  "secondSearchTimeout s \<in> {None, Some 0} \<Longrightarrow> clearSecondSearchTimeout s = s"
  "thirdSearchTimeout s \<in> {None, Some 0} \<Longrightarrow> clearThirdSearchTimeout s = s"
  by (auto simp: clearUpdateTimer_def clearSecondSearchTimeout_def clearThirdSearchTimeout_def)

lemma clear_result:
  "updateTimer (clearUpdateTimer s) \<in> {None, Some 0}"
  "secondSearchTimeout (clearSecondSearchTimeout s) \<in> {None, Some 0}"
  "thirdSearchTimeout (clearThirdSearchTimeout s) \<in> {None, Some 0}"
  by (simp_all add: clearUpdateTimer_def clearSecondSearchTimeout_def clearThirdSearchTimeout_def
        split: option.splits)

lemma stopUpdate_stored:
  "updateTimer (stopUpdate s) \<in> {None, Some 0}"
  "secondSearchTimeout (stopUpdate s) \<in> {None, Some 0}"
  "thirdSearchTimeout (stopUpdate s) \<in> {None, Some 0}"
  using clear_result(1) [of s] clear_result(2) [of "clearUpdateTimer s"]
    clear_result(3) [of "clearSecondSearchTimeout (clearUpdateTimer s)"]
  by (simp_all add: stopUpdate_def)

lemma stopUpdate_idem: "stopUpdate (stopUpdate s) = stopUpdate s"
proof -
  let ?t = "stopUpdate s"
  have "clearUpdateTimer ?t = ?t"
    by (rule clear_noop) (rule stopUpdate_stored)
  moreover have "clearSecondSearchTimeout ?t = ?t"
    by (rule clear_noop) (rule stopUpdate_stored)
  moreover have "clearThirdSearchTimeout ?t = ?t"
    by (rule clear_noop) (rule stopUpdate_stored)
  moreover have "?t\<lparr>isUpdating := False, isActivelySearching := False\<rparr> = ?t"
    by (simp add: stopUpdate_def)
  ultimately show ?thesis
    by (simp add: stopUpdate_def [of ?t])
qed

lemma clear_timers:
  "updateTimer s \<noteq> Some 0 \<Longrightarrow>
     timers (clearUpdateTimer s) = filter (\<lambda>t. Some (fst t) \<noteq> updateTimer s) (timers s)"
  "secondSearchTimeout s \<noteq> Some 0 \<Longrightarrow>
     timers (clearSecondSearchTimeout s) =
       filter (\<lambda>t. Some (fst t) \<noteq> secondSearchTimeout s) (timers s)"
  "thirdSearchTimeout s \<noteq> Some 0 \<Longrightarrow>
     timers (clearThirdSearchTimeout s) =
       filter (\<lambda>t. Some (fst t) \<noteq> thirdSearchTimeout s) (timers s)"
  by (simp_all add: clearUpdateTimer_def clearSecondSearchTimeout_def clearThirdSearchTimeout_def
        split: option.splits)

lemma stopUpdate_timers:
  assumes "wellFormed s"
  shows "timers (stopUpdate s) =
           filter (\<lambda>t. Some (fst t) \<noteq> updateTimer s \<and> Some (fst t) \<noteq> secondSearchTimeout s
                        \<and> Some (fst t) \<noteq> thirdSearchTimeout s) (timers s)"
proof -
  from assms have nz: "updateTimer s \<noteq> Some 0" "secondSearchTimeout s \<noteq> Some 0"
      "thirdSearchTimeout s \<noteq> Some 0"
    by (auto simp: wellFormed_def)
  let ?s1 = "clearUpdateTimer s"
  let ?s2 = "clearSecondSearchTimeout ?s1"
  have "timers (stopUpdate s) = timers (clearThirdSearchTimeout ?s2)"
    by (simp add: stopUpdate_def)
  also have "\<dots> = filter (\<lambda>t. Some (fst t) \<noteq> thirdSearchTimeout s) (timers ?s2)"
    using nz(3) clear_timers(3) [of ?s2] by simp
  also have "timers ?s2 = filter (\<lambda>t. Some (fst t) \<noteq> secondSearchTimeout s) (timers ?s1)"
    using nz(2) clear_timers(2) [of ?s1] by simp
  also have "timers ?s1 = filter (\<lambda>t. Some (fst t) \<noteq> updateTimer s) (timers s)"
    using nz(1) by (rule clear_timers(1))
  finally show ?thesis
    by (simp add: conj_commute conj_left_commute)
qed

lemma stopUpdate_timers_subset: "set (timers (stopUpdate s)) \<subseteq> set (timers s)"
  by (auto simp: stopUpdate_def clearUpdateTimer_def clearSecondSearchTimeout_def
        clearThirdSearchTimeout_def split: option.splits if_splits)




text \<open>Definitions unfolded when the page is run on a concrete list of events.\<close>

lemmas run_simps =
  initialState_def handleSearch_def resetToInitial_def stopUpdate_def clearUpdateTimer_def
  clearSecondSearchTimeout_def clearThirdSearchTimeout_def clearTimeout_def search_def
  setTimeout_def takeRequest_def takeTimer_def response_def hasTotal_def notFewer_def
  updateSearchResults_def totalOrZero_def sortedMerged_def assign_def sortedEntries_def
  normalizedEntries_def startSecondAllSearch_def startThirdAllSearch_def
  delayForSecondSearch_def delayForThirdSearch_def Let_def fooParams_def barParams_def

text \<open>
  Claim C10. In a well-formed state (every state the page can reach is one; a handle
  stored in it is a positive number that the browser has given out),
  \<^verbatim>\<open>stopUpdate\<close> leaves each of the three timer handles null, whichever of them were
  stored, and the flags \<^verbatim>\<open>isUpdating\<close> and \<^verbatim>\<open>isActivelySearching\<close> false; of the
  pending timers it removes exactly those with a stored handle; it changes neither
  \<^verbatim>\<open>loading\<close> nor the displayed total and category map nor \<^verbatim>\<open>searchTime\<close> nor
  \<^verbatim>\<open>updateCount\<close>; and a second call changes nothing.
\<close>

theorem stopUpdate_clears_and_is_idempotent:
  assumes "wellFormed s"
  shows "updateTimer (stopUpdate s) = None
       \<and> secondSearchTimeout (stopUpdate s) = None
       \<and> thirdSearchTimeout (stopUpdate s) = None
       \<and> \<not> isUpdating (stopUpdate s)
       \<and> \<not> isActivelySearching (stopUpdate s)
       \<and> timers (stopUpdate s) =
           filter (\<lambda>t. Some (fst t) \<noteq> updateTimer s \<and> Some (fst t) \<noteq> secondSearchTimeout s
                        \<and> Some (fst t) \<noteq> thirdSearchTimeout s) (timers s)
       \<and> loading (stopUpdate s) = loading s
       \<and> searchResults_total (stopUpdate s) = searchResults_total s
       \<and> searchResults_mergedResults (stopUpdate s) = searchResults_mergedResults s
       \<and> searchTime (stopUpdate s) = searchTime s
       \<and> updateCount (stopUpdate s) = updateCount s
       \<and> stopUpdate (stopUpdate s) = stopUpdate s"
  using stopUpdate_handles [OF assms] stopUpdate_timers [OF assms]
  by (simp add: stopUpdate_idem)

text \<open>
  The theorem at a state in which all three handles are stored: all three become null,
  the two timers with a stored handle are removed and the loading timeout stays.
\<close>

theorem stopUpdate_clears_and_is_idempotent_witness:
  "wellFormed threeHandlesStored
   \<and> updateTimer threeHandlesStored = Some 1
   \<and> secondSearchTimeout threeHandlesStored = Some 3
   \<and> thirdSearchTimeout threeHandlesStored = Some 4
   \<and> updateTimer (stopUpdate threeHandlesStored) = None
   \<and> secondSearchTimeout (stopUpdate threeHandlesStored) = None
   \<and> thirdSearchTimeout (stopUpdate threeHandlesStored) = None
   \<and> isUpdating threeHandlesStored
   \<and> isActivelySearching threeHandlesStored
   \<and> \<not> isUpdating (stopUpdate threeHandlesStored)
   \<and> \<not> isActivelySearching (stopUpdate threeHandlesStored)
   \<and> timers (stopUpdate threeHandlesStored) = [(2, 5000, LoadingTimeout)]
   \<and> loading (stopUpdate threeHandlesStored)
   \<and> searchResults_total (stopUpdate threeHandlesStored) = 5
   \<and> searchResults_mergedResults (stopUpdate threeHandlesStored) = [(''aliyun'', 1)]
   \<and> searchTime (stopUpdate threeHandlesStored) = Some 100
   \<and> updateCount (stopUpdate threeHandlesStored) = 2
   \<and> stopUpdate (stopUpdate threeHandlesStored) = stopUpdate threeHandlesStored"
proof -
  have wf: "wellFormed threeHandlesStored"
    by (simp add: wellFormed_def threeHandlesStored_def initialState_def)
  have given: "updateTimer threeHandlesStored = Some 1"
    "secondSearchTimeout threeHandlesStored = Some 3"
    "thirdSearchTimeout threeHandlesStored = Some 4"
    "isUpdating threeHandlesStored" "isActivelySearching threeHandlesStored"
    "loading threeHandlesStored" "searchResults_total threeHandlesStored = 5"
    "searchResults_mergedResults threeHandlesStored = [(''aliyun'', 1)]"
    "searchTime threeHandlesStored = Some 100" "updateCount threeHandlesStored = 2"
    "timers threeHandlesStored =
       [(2, 5000, LoadingTimeout),
        (3, 2000, ExecuteSecondAllSearch (fooParams\<lparr>src := Some ''all''\<rparr>)),
        (4, 3000, ExecuteThirdAllSearch (fooParams\<lparr>src := Some ''all''\<rparr>))]"
    by (simp_all add: threeHandlesStored_def initialState_def)
  from stopUpdate_clears_and_is_idempotent [OF wf] wf given show ?thesis
    by simp
qed
section \<open>The order and the names of the published category keys\<close>









lemma not_onlyDigits_normalizeKey: "\<not> onlyDigits (normalizeKey k)"
  by (simp add: normalizeKey_def onlyDigits_def isDigit_def)

lemma firstOccurrences_set [simp]: "set (firstOccurrences xs) = set xs"
  by (induction xs rule: firstOccurrences.induct) auto

lemma firstOccurrences_distinct_id: "distinct xs \<Longrightarrow> firstOccurrences xs = xs"
  by (induction xs) auto

lemma removeAll_as_filter: "removeAll x xs = filter (\<lambda>z. z \<noteq> x) xs"
  by (induction xs) auto


lemma firstOccurrences_append:
  "distinct ys \<Longrightarrow> firstOccurrences (ys @ zs) = ys @ firstOccurrences [z \<leftarrow> zs. z \<notin> set ys]"
proof (induction ys arbitrary: zs)
  case Nil
  then show ?case by simp
next
  case (Cons y ys)
  then have "removeAll y (ys @ zs) = ys @ removeAll y zs" by simp
  with Cons show ?case
    by (simp add: removeAll_as_filter conj_commute)
qed


lemma keys_foldl_update:
  "distinct (map fst acc) \<Longrightarrow>
     map fst (foldl (\<lambda>acc (k, v). AList.update k v acc) acc xs) =
       firstOccurrences (map fst acc @ map fst xs)"
proof (induction xs arbitrary: acc)
  case Nil
  then show ?case by (simp add: firstOccurrences_distinct_id)
next
  case (Cons x xs)
  obtain k v where x: "x = (k, v)" by (cases x)
  let ?acc = "AList.update k v acc"
  from Cons.prems have d: "distinct (map fst ?acc)" by (simp add: distinct_update)
  have "firstOccurrences (map fst ?acc @ map fst xs) = firstOccurrences (map fst acc @ k # map fst xs)"
  proof (cases "k \<in> set (map fst acc)")
    case True
    with Cons.prems show ?thesis
      by (simp add: firstOccurrences_append update_keys)
  next
    case False
    with Cons.prems d show ?thesis
      by (simp add: firstOccurrences_append update_keys removeAll_as_filter conj_commute)
  qed
  with Cons.IH [OF d] x show ?case by simp
qed

lemma set_foldl_update:
  "set (foldl (\<lambda>acc (k, v). AList.update k v acc) acc xs) \<subseteq> set acc \<union> set xs"
proof (induction xs arbitrary: acc)
  case Nil
  then show ?case by simp
next
  case (Cons x xs)
  obtain k v where x: "x = (k, v)" by (cases x)
  have "set (AList.update k v acc) \<subseteq> insert (k, v) (set acc)"
    by (induction acc) auto
  with Cons [of "AList.update k v acc"] x show ?case by auto
qed

lemma foldl_update_distinct:
  "distinct (map fst (acc @ xs)) \<Longrightarrow> foldl (\<lambda>acc (k, v). AList.update k v acc) acc xs = acc @ xs"
proof (induction xs arbitrary: acc)
  case Nil
  then show ?case by simp
next
  case (Cons x xs)
  obtain k v where x: "x = (k, v)" by (cases x)
  from Cons.prems x have "k \<notin> fst ` set acc" by auto
  then have u: "AList.update k v acc = acc @ [(k, v)]"
    by (induction acc) auto
  with Cons.prems x have "distinct (map fst (AList.update k v acc @ xs))" by simp
  from Cons.IH [OF this] u x show ?case by simp
qed

lemma foldl_assign:
  "foldl (\<lambda>acc (k, v). assign k v acc) acc xs =
   foldl (\<lambda>acc (k, v). AList.update k v acc) acc (filter (\<lambda>(k, v). k \<noteq> ''__proto__'') xs)"
  by (induction xs arbitrary: acc) (auto simp: assign_def)

lemma normalizeKey_proto: "normalizeKey k = ''__proto__'' \<longleftrightarrow> k = ''__proto__''"
  by (auto simp: normalizeKey_def onlyDigits_def isDigit_def)

lemma assignable_sortedEntries:
  "filter (\<lambda>(k, v). k \<noteq> ''__proto__'') (sortedEntries merged) = sortedEntries (assignable merged)"
  by (simp add: sortedEntries_def normalizedEntries_def assignable_def filter_sort filter_map
        comp_def split_def normalizeKey_proto)

lemma sortedMerged_assignable:
  "sortedMerged merged =
     foldl (\<lambda>acc (k, v). AList.update k v acc) [] (sortedEntries (assignable merged))"
  by (simp add: sortedMerged_def foldl_assign assignable_sortedEntries)

lemma set_assignable: "set (assignable merged) = {e \<in> set merged. fst e \<noteq> ''__proto__''}"
  by (auto simp: assignable_def)

lemma published_map:
  "merged_by_type r = Some merged \<Longrightarrow>
     searchResults_mergedResults (updateSearchResults (Some r) s) = sortedMerged merged"
  by (simp add: updateSearchResults_def Let_def)

lemma keys_sortedMerged:
  "map fst (sortedMerged merged) = firstOccurrences (map fst (sortedEntries (assignable merged)))"
  using keys_foldl_update [of "[]" "sortedEntries (assignable merged)"]
  by (simp add: sortedMerged_assignable)

lemma keys_normalizedEntries:
  "map fst (normalizedEntries merged) = map (normalizeKey \<circ> fst) merged"
  by (simp add: normalizedEntries_def split_def comp_def)



lemma set_sortedEntries: "set (sortedEntries merged) = (\<lambda>(k, v). (normalizeKey k, v)) ` set merged"
  by (simp add: sortedEntries_def normalizedEntries_def)

lemma keyset_sortedMerged:
  "fst ` set (sortedMerged merged) = normalizeKey ` fst ` set (assignable merged)"
proof -
  have "set (map fst (sortedMerged merged)) = set (map fst (sortedEntries (assignable merged)))"
    by (simp add: keys_sortedMerged)
  also have "\<dots> = set (map fst (normalizedEntries (assignable merged)))"
    by (simp add: sortedEntries_def)
  also have "\<dots> = set (map (normalizeKey \<circ> fst) (assignable merged))"
    by (simp only: keys_normalizedEntries)
  finally show ?thesis
    by (simp add: image_comp)
qed

lemma keyset_assignable:
  "normalizeKey ` fst ` set (assignable merged) = normalizeKey ` fst ` set merged - {''__proto__''}"
proof (intro set_eqI iffI)
  fix x
  assume "x \<in> normalizeKey ` fst ` set (assignable merged)"
  then obtain e where "e \<in> set merged" "fst e \<noteq> ''__proto__''" "x = normalizeKey (fst e)"
    by (auto simp: set_assignable)
  then show "x \<in> normalizeKey ` fst ` set merged - {''__proto__''}"
    by (simp add: normalizeKey_proto)
next
  fix x
  assume "x \<in> normalizeKey ` fst ` set merged - {''__proto__''}"
  then obtain e where e: "e \<in> set merged" "x = normalizeKey (fst e)" "x \<noteq> ''__proto__''"
    by auto
  then have "fst e \<noteq> ''__proto__''"
    by (simp add: normalizeKey_proto)
  with e have "e \<in> set (assignable merged)"
    by (simp add: set_assignable)
  with e(2) show "x \<in> normalizeKey ` fst ` set (assignable merged)"
    by simp
qed

lemma entries_sortedMerged:
  "set (sortedMerged merged) \<subseteq> (\<lambda>(k, v). (normalizeKey k, v)) ` set (assignable merged)"
  using set_foldl_update [of "[]" "sortedEntries (assignable merged)"]
  by (simp add: sortedMerged_assignable set_sortedEntries)

lemma sortedMerged_distinct:
  assumes "distinct (map (normalizeKey \<circ> fst) (assignable merged))"
  shows "sortedMerged merged = sortedEntries (assignable merged)"
proof -
  from assms have "distinct (map fst (normalizedEntries (assignable merged)))"
    by (simp only: keys_normalizedEntries)
  then have "distinct (map fst (sortedEntries (assignable merged)))"
    by (simp add: sortedEntries_def distinct_map)
  then show ?thesis
    using foldl_update_distinct [of "[]" "sortedEntries (assignable merged)"]
    by (simp add: sortedMerged_assignable)
qed









lemma map_of_sortedEntries:
  assumes "distinct (map (normalizeKey \<circ> fst) merged)" and "(k, v) \<in> set merged"
  shows "map_of (sortedEntries merged) (normalizeKey k) = Some v"
proof -
  from assms(1) have "distinct (map fst (normalizedEntries merged))"
    by (simp only: keys_normalizedEntries)
  then have "distinct (map fst (sortedEntries merged))"
    by (simp add: sortedEntries_def distinct_map)
  moreover from assms(2) have "(normalizeKey k, v) \<in> set (sortedEntries merged)"
    by (force simp: set_sortedEntries)
  ultimately show ?thesis by simp
qed

text \<open>
  Claim C9, as the code has it. A publish of a response with a category map rewrites the
  keys: the published keys are the normalised keys of the response other than
  \<^verbatim>\<open>__proto__\<close>, which is never published; so a key of digits only appears with the
  prefix \<^verbatim>\<open>disk_\<close> and every other key but \<^verbatim>\<open>__proto__\<close> appears as it is; no
  published key consists of digits only; every published entry is an entry of the response
  under its normalised key. When no two keys of the response other than \<^verbatim>\<open>__proto__\<close>
  have the same normalised key, every entry of the response with another key than
  \<^verbatim>\<open>__proto__\<close> is published and the item list of each such key is found, unchanged,
  under its normalised key.
\<close>

theorem published_keys_are_prefixed:
  assumes "merged_by_type r = Some merged"
  shows "let published = searchResults_mergedResults (updateSearchResults (Some r) s)
         in fst ` set published = normalizeKey ` fst ` set merged - {''__proto__''}
          \<and> (\<forall>k \<in> fst ` set merged. k \<noteq> ''__proto__'' \<longrightarrow>
                (if onlyDigits k then ''disk_'' @ k else k) \<in> fst ` set published)
          \<and> (\<forall>k' \<in> fst ` set published. \<not> onlyDigits k')
          \<and> set published \<subseteq> (\<lambda>(k, v). (normalizeKey k, v)) ` set (assignable merged)
          \<and> (distinct (map (normalizeKey \<circ> fst) (assignable merged)) \<longrightarrow>
                length published = length (assignable merged)
              \<and> (\<forall>(k, v) \<in> set merged. k \<noteq> ''__proto__'' \<longrightarrow>
                    map_of published (normalizeKey k) = Some v))"
  unfolding published_map [OF assms] Let_def
proof (intro conjI ballI impI)
  show keys: "fst ` set (sortedMerged merged) = normalizeKey ` fst ` set merged - {''__proto__''}"
    by (simp only: keyset_sortedMerged keyset_assignable)
  show "(if onlyDigits k then ''disk_'' @ k else k) \<in> fst ` set (sortedMerged merged)"
    if "k \<in> fst ` set merged" "k \<noteq> ''__proto__''" for k
  proof -
    from that have "normalizeKey k \<in> fst ` set (sortedMerged merged)"
      unfolding keys by (simp add: normalizeKey_proto)
    then show ?thesis by (simp add: normalizeKey_def)
  qed
  show "\<not> onlyDigits k'" if "k' \<in> fst ` set (sortedMerged merged)" for k'
    using that unfolding keyset_sortedMerged by (auto simp: not_onlyDigits_normalizeKey)
  show "set (sortedMerged merged) \<subseteq> (\<lambda>(k, v). (normalizeKey k, v)) ` set (assignable merged)"
    by (rule entries_sortedMerged)
  show "length (sortedMerged merged) = length (assignable merged)"
    if "distinct (map (normalizeKey \<circ> fst) (assignable merged))"
    using that by (simp add: sortedMerged_distinct sortedEntries_def normalizedEntries_def)
  show "case e of (k, v) \<Rightarrow> k \<noteq> ''__proto__'' \<longrightarrow>
          map_of (sortedMerged merged) (normalizeKey k) = Some v"
    if "distinct (map (normalizeKey \<circ> fst) (assignable merged))" "e \<in> set merged" for e
  proof (cases e)
    case (Pair k v)
    show ?thesis
      unfolding Pair prod.case
    proof
      assume "k \<noteq> ''__proto__''"
      with that(2) Pair have "(k, v) \<in> set (assignable merged)"
        by (simp add: set_assignable)
      with that(1) show "map_of (sortedMerged merged) (normalizeKey k) = Some v"
        by (simp add: sortedMerged_distinct map_of_sortedEntries)
    qed
  qed
qed

text \<open>The theorem at a response with the keys \<^verbatim>\<open>115\<close>, \<^verbatim>\<open>__proto__\<close> and \<^verbatim>\<open>quark\<close>.\<close>

theorem published_keys_are_prefixed_witness:
  "fst ` set (searchResults_mergedResults
      (updateSearchResults (response 3 [(''115'', [7, 8]), (''__proto__'', [1]), (''quark'', [9])])
         (initialState 0 :: nat list state))) = {''disk_115'', ''quark''}
   \<and> map_of (searchResults_mergedResults
      (updateSearchResults (response 3 [(''115'', [7, 8]), (''__proto__'', [1]), (''quark'', [9])])
         (initialState 0 :: nat list state))) (normalizeKey ''115'') = Some [7, 8]
   \<and> normalizeKey ''115'' = ''disk_115''
   \<and> length (searchResults_mergedResults
      (updateSearchResults (response 3 [(''115'', [7, 8]), (''__proto__'', [1]), (''quark'', [9])])
         (initialState 0 :: nat list state))) = 2"
proof -
  let ?m = "[(''115'', [7, 8]), (''__proto__'', [1]), (''quark'', [9])]
              :: (string \<times> nat list) list"
  let ?r = "\<lparr> total = Some 3, merged_by_type = Some ?m \<rparr>"
  let ?p = "searchResults_mergedResults
      (updateSearchResults (Some ?r) (initialState 0 :: nat list state))"
  have m: "merged_by_type ?r = Some ?m" by simp
  have n: "normalizeKey ''115'' = ''disk_115''" "normalizeKey ''quark'' = ''quark''"
      "normalizeKey ''__proto__'' = ''__proto__''"
    by (simp_all add: normalizeKey_def onlyDigits_def isDigit_def)
  have a: "assignable ?m = [(''115'', [7, 8]), (''quark'', [9])]"
    by (simp add: assignable_def)
  from n have d: "distinct (map (normalizeKey \<circ> fst) (assignable ?m))"
    unfolding a by simp
  note T = published_keys_are_prefixed [OF m, of "initialState 0 :: nat list state",
      unfolded Let_def]
  note keys = T [THEN conjunct1]
  note rest = T [THEN conjunct2, THEN conjunct2, THEN conjunct2, THEN conjunct2, THEN mp, OF d]
  have k: "fst ` set ?p = {''disk_115'', ''quark''}"
    unfolding keys by (simp add: n insert_Diff_if)
  have l: "length ?p = 2"
    unfolding rest [THEN conjunct1] a by simp
  from rest [THEN conjunct2]
  have "(''115'', [7, 8]) \<in> set ?m \<longrightarrow> ''115'' \<noteq> ''__proto__'' \<longrightarrow>
          map_of ?p (normalizeKey ''115'') = Some [7, 8]"
    by (simp only: Ball_def split_paired_All) blast
  then have v: "map_of ?p (normalizeKey ''115'') = Some [7, 8]"
    by simp
  from k v l n(1) show ?thesis
    unfolding response_def by simp
qed

text \<open>
  Claim C9 as stated fails for a response that has both the key \<^verbatim>\<open>101\<close> and the key
  \<^verbatim>\<open>disk_101\<close>: both are assigned to \<^verbatim>\<open>disk_101\<close>, and the item list of \<^verbatim>\<open>101\<close> is
  not published. It fails as well for a response with the key \<^verbatim>\<open>__proto__\<close>, which has
  no digits and is not published, neither the key nor its item list.
\<close>

theorem published_item_lists_unchanged_counterexample:
  "searchResults_mergedResults
      (updateSearchResults (response 2 [(''101'', [1]), (''disk_101'', [2])])
         (initialState 0 :: nat list state)) = [(''disk_101'', [2])]
   \<and> searchResults_mergedResults
      (updateSearchResults (response 2 [(''__proto__'', [1]), (''aliyun'', [2])])
         (initialState 0 :: nat list state)) = [(''aliyun'', [2])]"
  by (simp add: run_simps normalizeKey_def onlyDigits_def isDigit_def sortPos_def
        denormalizeKey_def diskSortOrder_def)

section \<open>Timers: what is pending, and when it fires\<close>


lemma handleSearch_fields:
  "requests (handleSearch p s) =
     requests s @ [(nextRequest s, p\<lparr>src := Some ''tg''\<rparr>, TgSearch (now s) (p\<lparr>src := Some ''all''\<rparr>))]"
  "nextRequest (handleSearch p s) = Suc (nextRequest s)"
  "timers (handleSearch p s) = timers (stopUpdate s) @ [(nextHandle s, now s + 5000, LoadingTimeout)]"
  "nextHandle (handleSearch p s) = Suc (nextHandle s)"
  "loading (handleSearch p s) = True"
  "searchResults_total (handleSearch p s) = 0"
  "searchResults_mergedResults (handleSearch p s) = []"
  "searchTime (handleSearch p s) = None"
  "lastSearchParams (handleSearch p s) = Some p"
  "now (handleSearch p s) = now s"
  "keyword (handleSearch p s) = kw p"
  "hasSearched (handleSearch p s) = True"
  "isActivelySearching (handleSearch p s) = True"
  "isUpdating (handleSearch p s) = False"
  "updateCount (handleSearch p s) = updateCount s"
  by (simp_all add: handleSearch_def Let_def setTimeout_def search_def)

lemma resetToInitial_fields:
  "requests (resetToInitial s) = requests s"
  "nextRequest (resetToInitial s) = nextRequest s"
  "timers (resetToInitial s) = timers (stopUpdate s)"
  "nextHandle (resetToInitial s) = nextHandle s"
  "loading (resetToInitial s) = False"
  "searchResults_total (resetToInitial s) = 0"
  "searchResults_mergedResults (resetToInitial s) = []"
  "lastSearchParams (resetToInitial s) = lastSearchParams s"
  "now (resetToInitial s) = now s"
  by (simp_all add: resetToInitial_def)

lemma timersFrom_refl: "timersFrom s s"
  by (simp add: timersFrom_def)

lemma timersFrom_trans: "timersFrom s s' \<Longrightarrow> timersFrom s' s'' \<Longrightarrow> timersFrom s s''"
  by (fastforce simp: timersFrom_def)

lemma timersFrom_same:
  "set (timers s') \<subseteq> set (timers s) \<Longrightarrow> nextHandle s' = nextHandle s \<Longrightarrow> timersFrom s s'"
  by (auto simp: timersFrom_def)

lemma timersFrom_stopUpdate: "timersFrom s (stopUpdate s)"
  by (rule timersFrom_same) (simp_all add: stopUpdate_timers_subset)

lemma timersFrom_updateSearchResults: "timersFrom s (updateSearchResults r s)"
  by (rule timersFrom_same) simp_all

lemma timersFrom_search: "timersFrom s (search p k s)"
  by (rule timersFrom_same) simp_all

lemma timersFrom_startSecondAllSearch: "timersFrom s (startSecondAllSearch t s)"
  by (auto simp: timersFrom_def startSecondAllSearch_def setTimeout_def Let_def split: option.splits)

lemma timersFrom_startThirdAllSearch: "timersFrom s (startThirdAllSearch t s)"
  by (auto simp: timersFrom_def startThirdAllSearch_def setTimeout_def Let_def split: option.splits)

lemma timersFrom_handleSearch: "timersFrom s (handleSearch p s)"
  using stopUpdate_timers_subset [of s]
  by (auto simp: timersFrom_def handleSearch_fields)

lemma timersFrom_resetToInitial: "timersFrom s (resetToInitial s)"
  using stopUpdate_timers_subset [of s]
  by (auto simp: timersFrom_def resetToInitial_fields)

lemma timersFrom_update [simp]:
  "timersFrom s (s'\<lparr>loading := b\<rparr>) = timersFrom s s'"
  "timersFrom s (s'\<lparr>searchTime := x\<rparr>) = timersFrom s s'"
  "timersFrom s (s'\<lparr>isActivelySearching := b\<rparr>) = timersFrom s s'"
  "timersFrom s (s'\<lparr>now := t\<rparr>) = timersFrom s s'"
  "timersFrom s (s'\<lparr>requests := rs\<rparr>) = timersFrom s s'"
  by (simp_all add: timersFrom_def)

lemmas timersFrom_parts =
  timersFrom_refl timersFrom_stopUpdate timersFrom_updateSearchResults timersFrom_search
  timersFrom_startSecondAllSearch timersFrom_startThirdAllSearch

lemma timersFrom_after_update:
  "timersFrom (updateSearchResults r s) s' \<Longrightarrow> timersFrom s s'"
  by (simp add: timersFrom_def)

lemma timersFrom_onResolve: "timersFrom s (onResolve k r s)"
proof (cases k)
  case (TgSearch startTime allParams)
  then show ?thesis
    by (auto simp: Let_def timersFrom_def)
next
  case FirstAllSearch
  then show ?thesis
    by (auto simp: Let_def timersFrom_startSecondAllSearch
             intro!: timersFrom_after_update [of r s])
next
  case FirstAllSearchAfterTgFailure
  then show ?thesis
    by (auto simp: Let_def timersFrom_refl timersFrom_startSecondAllSearch
             intro!: timersFrom_after_update [of r s])
next
  case SecondAllSearch
  then show ?thesis
    by (auto simp: Let_def timersFrom_startThirdAllSearch
             intro!: timersFrom_after_update [of r s])
next
  case ThirdAllSearch
  then show ?thesis
    by (auto simp: Let_def timersFrom_stopUpdate
             intro!: timersFrom_after_update [of r s])
qed

lemma timersFrom_onReject: "timersFrom s (onReject k s)"
  by (cases k) (auto simp: timersFrom_parts intro: timersFrom_trans [OF _ timersFrom_search])

lemma timersFrom_onFire: "timersFrom s (onFire cb s)"
  by (cases cb) (auto simp: timersFrom_parts split: option.splits)

lemma timersFrom_step:
  assumes "step e s = Some s'"
  shows "timersFrom s s'"
proof (cases e)
  case (Resolve q r)
  with assms obtain k s0 where t: "takeRequest q s = Some (k, s0)" and s': "s' = onResolve k r s0"
    by (auto split: option.splits)
  from takeRequest_SomeD [OF t] have "timersFrom s s0" by (auto simp: timersFrom_refl)
  then show ?thesis
    unfolding s' using timersFrom_onResolve by (rule timersFrom_trans)
next
  case (Reject q)
  with assms obtain k s0 where t: "takeRequest q s = Some (k, s0)" and s': "s' = onReject k s0"
    by (auto split: option.splits)
  from takeRequest_SomeD [OF t] have "timersFrom s s0" by (auto simp: timersFrom_refl)
  then show ?thesis
    unfolding s' using timersFrom_onReject by (rule timersFrom_trans)
next
  case (Fire h)
  with assms obtain cb s0 where t: "takeTimer h s = Some (cb, s0)" and s': "s' = onFire cb s0"
    by (auto split: option.splits)
  from takeTimer_SomeD [OF t] have "timersFrom s s0" by (auto simp: timersFrom_def)
  then show ?thesis
    unfolding s' using timersFrom_onFire by (rule timersFrom_trans)
qed (use assms in \<open>auto simp: timersFrom_handleSearch timersFrom_resetToInitial
       timersFrom_stopUpdate timersFrom_refl\<close>)

lemma timersFrom_run: "run es s = Some s' \<Longrightarrow> timersFrom s s'"
proof (induction es arbitrary: s)
  case Nil
  then show ?case by (simp add: timersFrom_refl)
next
  case (Cons e es)
  then obtain s1 where "step e s = Some s1" "run es s1 = Some s'"
    by (auto split: option.splits)
  with Cons.IH show ?case
    by (blast intro: timersFrom_trans timersFrom_step)
qed

lemma run_append:
  "run (es1 @ es2) s = (case run es1 s of None \<Rightarrow> None | Some s' \<Rightarrow> run es2 s')"
  by (induction es1 arbitrary: s) (auto split: option.splits)

lemma run_Cons_SomeD:
  "run (e # es) s = Some s' \<Longrightarrow> \<exists>s1. step e s = Some s1 \<and> run es s1 = Some s'"
  by (cases "step e s") simp_all

lemma find_distinct_key:
  "distinct (map fst xs) \<Longrightarrow> x \<in> set xs \<Longrightarrow> find (\<lambda>y. fst y = fst x) xs = Some x"
  by (induction xs) (auto simp: rev_image_eqI)

lemma takeTimer_pending:
  assumes "wellFormed s" and "(h, due, cb) \<in> set (timers s)"
  shows "takeTimer h s =
           (if now s < due then None
            else Some (cb, s\<lparr>timers := filter (\<lambda>t. fst t \<noteq> h) (timers s)\<rparr>))"
proof -
  from assms have "find (\<lambda>t. fst t = fst (h, due, cb)) (timers s) = Some (h, due, cb)"
    by (intro find_distinct_key) (auto simp: wellFormed_def)
  then show ?thesis
    by (simp add: takeTimer_def)
qed

lemma takeRequest_inflight:
  assumes "wellFormed s" and "(q, p, k) \<in> set (requests s)"
  shows "takeRequest q s = Some (k, s\<lparr>requests := filter (\<lambda>r. fst r \<noteq> q) (requests s)\<rparr>)"
proof -
  from assms have "find (\<lambda>r. fst r = fst (q, p, k)) (requests s) = Some (q, p, k)"
    by (intro find_distinct_key) (auto simp: wellFormed_def)
  then show ?thesis
    by (simp add: takeRequest_def)
qed


lemma fire_needs_due:
  assumes wf: "wellFormed s"
    and app: "timers s1 = timers s @ [(nextHandle s, due, cb)]"
    and nh: "nextHandle s < nextHandle s1"
    and run: "run es s1 = Some s'"
    and fire: "step (Fire (nextHandle s)) s' \<noteq> None"
  shows "due \<le> now s'"
proof -
  from fire obtain cb' s0 where "takeTimer (nextHandle s) s' = Some (cb', s0)"
    by (auto split: option.splits)
  from takeTimer_SomeD [OF this] obtain due'
    where mem: "(nextHandle s, due', cb') \<in> set (timers s')" and le: "due' \<le> now s'"
    by blast
  from timersFrom_run [OF run] mem nh have "(nextHandle s, due', cb') \<in> set (timers s1)"
    by (fastforce simp: timersFrom_def)
  with app wf have "due' = due"
    by (auto simp: wellFormed_def)
  with le show ?thesis by simp
qed

lemma fire_second_not_early:
  assumes wf: "wellFormed s" and lp: "lastSearchParams s = Some params"
    and run: "run es (startSecondAllSearch tB s) = Some s'"
    and fire: "step (Fire (nextHandle s)) s' \<noteq> None"
  shows "tB + 2000 \<le> now s'"
proof -
  from startSecondAllSearch_timers [OF lp, of tB]
  have "now s + delayForSecondSearch (now s) tB \<le> now s'"
    by (intro fire_needs_due [OF wf _ _ run fire]) auto
  then show ?thesis
    by (simp add: delayForSecondSearch_def)
qed

lemma fire_third_not_early:
  assumes wf: "wellFormed s" and lp: "lastSearchParams s = Some params"
    and run: "run es (startThirdAllSearch tC s) = Some s'"
    and fire: "step (Fire (nextHandle s)) s' \<noteq> None"
  shows "tC + 3000 \<le> now s'"
proof -
  from startThirdAllSearch_timers [OF lp, of tC]
  have "now s + delayForThirdSearch (now s) tC \<le> now s'"
    by (intro fire_needs_due [OF wf _ _ run fire]) auto
  then show ?thesis
    by (simp add: delayForThirdSearch_def)
qed

lemma fire_second_at_once:
  assumes wf: "wellFormed s" and lp: "lastSearchParams s = Some params"
    and el: "2000 \<le> now s - tB"
  shows "step (Fire (nextHandle s)) (startSecondAllSearch tB s) \<noteq> None"
proof -
  let ?s1 = "startSecondAllSearch tB s"
  from startSecondAllSearch_timers [OF lp, of tB]
  have "(nextHandle s, now s + delayForSecondSearch (now s) tB,
          ExecuteSecondAllSearch (params\<lparr>src := Some ''all''\<rparr>)) \<in> set (timers ?s1)"
    by simp
  from takeTimer_pending [OF wellFormed_startSecondAllSearch [OF wf] this] el
  show ?thesis
    by (simp add: delayForSecondSearch_def)
qed

lemma fire_third_at_once:
  assumes wf: "wellFormed s" and lp: "lastSearchParams s = Some params"
    and el: "3000 \<le> now s - tC"
  shows "step (Fire (nextHandle s)) (startThirdAllSearch tC s) \<noteq> None"
proof -
  let ?s1 = "startThirdAllSearch tC s"
  from startThirdAllSearch_timers [OF lp, of tC]
  have "(nextHandle s, now s + delayForThirdSearch (now s) tC,
          ExecuteThirdAllSearch (params\<lparr>src := Some ''all''\<rparr>)) \<in> set (timers ?s1)"
    by simp
  from takeTimer_pending [OF wellFormed_startThirdAllSearch [OF wf] this] el
  show ?thesis
    by (simp add: delayForThirdSearch_def)
qed

text \<open>The state in which the handler of a query runs: the query is no longer in flight.\<close>

lemma step_Resolve_inflight:
  assumes "wellFormed s" and "(q, p, k) \<in> set (requests s)"
  shows "step (Resolve q r) s =
           Some (onResolve k r (s\<lparr>requests := filter (\<lambda>x. fst x \<noteq> q) (requests s)\<rparr>))"
  using takeRequest_inflight [OF assms] by simp

lemma step_Reject_inflight:
  assumes "wellFormed s" and "(q, p, k) \<in> set (requests s)"
  shows "step (Reject q) s =
           Some (onReject k (s\<lparr>requests := filter (\<lambda>x. fst x \<noteq> q) (requests s)\<rparr>))"
  using takeRequest_inflight [OF assms] by simp

lemma wellFormed_without_request:
  assumes "wellFormed s" and "(q, p, k) \<in> set (requests s)"
  shows "wellFormed (s\<lparr>requests := filter P (requests s)\<rparr>)"
    and "lastSearchParams s \<noteq> None"
  using assms by (auto intro: wellFormed_filter_requests dest: wellFormed_has_params)

lemma onResolve_guarded:
  "onResolve FirstAllSearch r s =
     startSecondAllSearch (now s) (if notFewer r s then updateSearchResults r s else s)"
  "onResolve SecondAllSearch r s =
     startThirdAllSearch (now s) (if notFewer r s then updateSearchResults r s else s)"
  "onResolve ThirdAllSearch r s =
     stopUpdate (if notFewer r s then updateSearchResults r s else s)"
  by (cases "notFewer r s"; simp add: Let_def)+

text \<open>
  Claim C5. In a state the page can reach, with the parameters of a search stored,
  \<^verbatim>\<open>startSecondAllSearch\<close> called with the completion time \<open>tB\<close> of the first ALL query
  registers the second ALL query with the delay \<open>max 0 (2000 - (now - tB))\<close>, and
  \<^verbatim>\<open>startThirdAllSearch\<close> called with the completion time \<open>tC\<close> of the second ALL query
  registers the third with the delay \<open>max 0 (3000 - (now - tC))\<close>. Whatever happens in
  between, the timer fires only at a clock value of at least \<open>tB + 2000\<close> and
  \<open>tC + 3000\<close>; it can fire at once when the gap has elapsed already. For the events of
  the page: when the response of the first (second) ALL query arrives at clock value
  \<open>now s\<close>, the timer it registers fires no earlier than 2000 (3000) after that.
\<close>

theorem second_and_third_query_delays:
  assumes reach: "run es0 (initialState t0) = Some s"
    and lp: "lastSearchParams s = Some params"
  shows "timers (startSecondAllSearch tB s) =
           timers s @ [(nextHandle s, now s + max 0 (2000 - (now s - tB)),
                        ExecuteSecondAllSearch (params\<lparr>src := Some ''all''\<rparr>))]
       \<and> timers (startThirdAllSearch tC s) =
           timers s @ [(nextHandle s, now s + max 0 (3000 - (now s - tC)),
                        ExecuteThirdAllSearch (params\<lparr>src := Some ''all''\<rparr>))]
       \<and> (\<forall>es s'. run es (startSecondAllSearch tB s) = Some s' \<longrightarrow>
             step (Fire (nextHandle s)) s' \<noteq> None \<longrightarrow> tB + 2000 \<le> now s')
       \<and> (\<forall>es s'. run es (startThirdAllSearch tC s) = Some s' \<longrightarrow>
             step (Fire (nextHandle s)) s' \<noteq> None \<longrightarrow> tC + 3000 \<le> now s')
       \<and> (2000 \<le> now s - tB \<longrightarrow> step (Fire (nextHandle s)) (startSecondAllSearch tB s) \<noteq> None)
       \<and> (3000 \<le> now s - tC \<longrightarrow> step (Fire (nextHandle s)) (startThirdAllSearch tC s) \<noteq> None)
       \<and> (\<forall>q p r s1 es s'. (q, p, FirstAllSearch) \<in> set (requests s) \<longrightarrow>
             step (Resolve q r) s = Some s1 \<longrightarrow> run es s1 = Some s' \<longrightarrow>
             step (Fire (nextHandle s)) s' \<noteq> None \<longrightarrow> now s + 2000 \<le> now s')
       \<and> (\<forall>q p r s1 es s'. (q, p, SecondAllSearch) \<in> set (requests s) \<longrightarrow>
             step (Resolve q r) s = Some s1 \<longrightarrow> run es s1 = Some s' \<longrightarrow>
             step (Fire (nextHandle s)) s' \<noteq> None \<longrightarrow> now s + 3000 \<le> now s')"
proof -
  note wf = wellFormed_reachable [OF reach]
  have b: "now s + 2000 \<le> now s'"
    if "(q, p, FirstAllSearch) \<in> set (requests s)" "step (Resolve q r) s = Some s1"
       "run es s1 = Some s'" "step (Fire (nextHandle s)) s' \<noteq> None" for q p r s1 es s'
  proof -
    let ?s0 = "s\<lparr>requests := filter (\<lambda>x. fst x \<noteq> q) (requests s)\<rparr>"
    let ?s0' = "if notFewer r ?s0 then updateSearchResults r ?s0 else ?s0"
    from that(2) step_Resolve_inflight [OF wf that(1), of r]
    have "s1 = onResolve FirstAllSearch r ?s0"
      by simp
    then have s1: "s1 = startSecondAllSearch (now s) ?s0'"
      by (simp only: onResolve_guarded) simp
    have "wellFormed ?s0'" "lastSearchParams ?s0' = Some params" "nextHandle ?s0' = nextHandle s"
      using wellFormed_without_request(1) [OF wf that(1)] lp by simp_all
    from fire_second_not_early [OF this(1,2), of es "now s" s'] that(3,4) s1 this(3)
    show ?thesis by simp
  qed
  have c: "now s + 3000 \<le> now s'"
    if "(q, p, SecondAllSearch) \<in> set (requests s)" "step (Resolve q r) s = Some s1"
       "run es s1 = Some s'" "step (Fire (nextHandle s)) s' \<noteq> None" for q p r s1 es s'
  proof -
    let ?s0 = "s\<lparr>requests := filter (\<lambda>x. fst x \<noteq> q) (requests s)\<rparr>"
    let ?s0' = "if notFewer r ?s0 then updateSearchResults r ?s0 else ?s0"
    from that(2) step_Resolve_inflight [OF wf that(1), of r]
    have "s1 = onResolve SecondAllSearch r ?s0"
      by simp
    then have s1: "s1 = startThirdAllSearch (now s) ?s0'"
      by (simp only: onResolve_guarded) simp
    have "wellFormed ?s0'" "lastSearchParams ?s0' = Some params" "nextHandle ?s0' = nextHandle s"
      using wellFormed_without_request(1) [OF wf that(1)] lp by simp_all
    from fire_third_not_early [OF this(1,2), of es "now s" s'] that(3,4) s1 this(3)
    show ?thesis by simp
  qed
  show ?thesis
  proof (intro conjI allI impI)
    show "timers (startSecondAllSearch tB s) =
           timers s @ [(nextHandle s, now s + max 0 (2000 - (now s - tB)),
                        ExecuteSecondAllSearch (params\<lparr>src := Some ''all''\<rparr>))]"
      using startSecondAllSearch_timers [OF lp, of tB] by (simp add: delayForSecondSearch_def)
    show "timers (startThirdAllSearch tC s) =
           timers s @ [(nextHandle s, now s + max 0 (3000 - (now s - tC)),
                        ExecuteThirdAllSearch (params\<lparr>src := Some ''all''\<rparr>))]"
      using startThirdAllSearch_timers [OF lp, of tC] by (simp add: delayForThirdSearch_def)
    show "tB + 2000 \<le> now s'"
      if "run es (startSecondAllSearch tB s) = Some s'" "step (Fire (nextHandle s)) s' \<noteq> None"
      for es s'
      using fire_second_not_early [OF wf lp that] .
    show "tC + 3000 \<le> now s'"
      if "run es (startThirdAllSearch tC s) = Some s'" "step (Fire (nextHandle s)) s' \<noteq> None"
      for es s'
      using fire_third_not_early [OF wf lp that] .
    show "step (Fire (nextHandle s)) (startSecondAllSearch tB s) \<noteq> None"
      if "2000 \<le> now s - tB"
      using fire_second_at_once [OF wf lp that] .
    show "step (Fire (nextHandle s)) (startThirdAllSearch tC s) \<noteq> None"
      if "3000 \<le> now s - tC"
      using fire_third_at_once [OF wf lp that] .
    show "now s + 2000 \<le> now s'"
      if "(q, p, FirstAllSearch) \<in> set (requests s)" "step (Resolve q r) s = Some s1"
         "run es s1 = Some s'" "step (Fire (nextHandle s)) s' \<noteq> None" for q p r s1 es s'
      using b [OF that] .
    show "now s + 3000 \<le> now s'"
      if "(q, p, SecondAllSearch) \<in> set (requests s)" "step (Resolve q r) s = Some s1"
         "run es s1 = Some s'" "step (Fire (nextHandle s)) s' \<noteq> None" for q p r s1 es s'
      using c [OF that] .
  qed
qed


text \<open>
  The theorem in the state where the TG response is shown and the first ALL query is in
  flight: the timer registered when its response arrives can fire 2000 later, and a call
  with a completion time 3000 in the past registers a timer that can fire at once.
\<close>

theorem second_and_third_query_delays_witness:
  "\<exists>s s1 s'. run [HandleSearch fooParams, Resolve 0 (response 5 [])] (initialState 0 :: nat state) = Some s
     \<and> lastSearchParams s = Some fooParams
     \<and> step (Resolve 1 (response 7 [])) s = Some s1
     \<and> run [Advance 2000] s1 = Some s'
     \<and> step (Fire 2) s' \<noteq> None
     \<and> now s + 2000 \<le> now s'
     \<and> timers (startSecondAllSearch (- 3000) s) =
           timers s @ [(2, 0, ExecuteSecondAllSearch (fooParams\<lparr>src := Some ''all''\<rparr>))]
     \<and> step (Fire 2) (startSecondAllSearch (- 3000) s) \<noteq> None"
proof -
  let ?init = "initialState 0 :: nat state"
  let ?es0 = "[HandleSearch fooParams, Resolve 0 (response 5 [])] :: nat event list"
  let ?r = "response 7 [] :: nat SearchResponse option"
  obtain s where s: "run ?es0 ?init = Some s"
    and lp: "lastSearchParams s = Some fooParams"
    and q: "(1, fooParams\<lparr>src := Some ''all''\<rparr>, FirstAllSearch) \<in> set (requests s)"
    and nh: "nextHandle s = 2" and t: "now s = 0"
    by (simp add: run_simps)
  have "\<exists>s'. run (?es0 @ [Resolve 1 ?r, Advance 2000]) ?init = Some s' \<and> step (Fire 2) s' \<noteq> None"
    by (simp add: run_simps)
  then obtain s' where "run (?es0 @ [Resolve 1 ?r, Advance 2000]) ?init = Some s'"
    and f: "step (Fire 2) s' \<noteq> None"
    by blast
  with s have "run [Resolve 1 ?r, Advance 2000] s = Some s'"
    by (simp only: run_append option.case)
  then obtain s1 where s1: "step (Resolve 1 ?r) s = Some s1" and s': "run [Advance 2000] s1 = Some s'"
    by (blast dest: run_Cons_SomeD)
  note T = second_and_third_query_delays [OF s lp, of "- 3000" 0, unfolded nh]
  from T q s1 s' f have a: "now s + 2000 \<le> now s'"
    by blast
  from T t have b: "timers (startSecondAllSearch (- 3000) s) =
           timers s @ [(2, 0, ExecuteSecondAllSearch (fooParams\<lparr>src := Some ''all''\<rparr>))]"
    by simp
  from T t have c: "step (Fire 2) (startSecondAllSearch (- 3000) s) \<noteq> None"
    by simp
  from s lp s1 s' f a b c show ?thesis
    by blast
qed

section \<open>A new search and the sequence before it\<close>







section \<open>Which failures end the sequence\<close>





section \<open>The displayed total within one sequence\<close>


lemma shown_after_guarded:
  assumes "guarded k"
  shows "searchResults_total (onResolve k r s) =
           searchResults_total (if notFewer r s then updateSearchResults r s else s)"
    and "searchResults_mergedResults (onResolve k r s) =
           searchResults_mergedResults (if notFewer r s then updateSearchResults r s else s)"
    and "requests (onResolve k r s) = requests s"
    and "loading (onResolve k r s) = loading s"
  using assms by (cases "notFewer r s"; auto simp: guarded_def Let_def)+

lemma total_updateSearchResults:
  "searchResults_total (updateSearchResults (Some x) s) = totalOrZero x"
  by (simp add: updateSearchResults_def Let_def split: option.splits)

lemma shown_total_after_guarded:
  assumes "guarded k"
  shows "searchResults_total (onResolve k r s) =
           fold max (receivedTotal (Resolve q r)) (searchResults_total s)"
proof (cases r)
  case None
  with assms show ?thesis
    by (simp add: shown_after_guarded notFewer_def)
next
  case (Some x)
  with assms show ?thesis
    by (cases "total x")
       (auto simp: shown_after_guarded notFewer_def total_updateSearchResults totalOrZero_def)
qed

lemma rejected_guarded:
  assumes "guarded k"
  shows "searchResults_total (onReject k s) = searchResults_total s"
    and "requests (onReject k s) = requests s"
    and "loading (onReject k s) = loading s"
  using assms by (auto simp: guarded_def)

lemma fired_frame:
  "searchResults_total (onFire cb s) = searchResults_total s"
  "searchResults_mergedResults (onFire cb s) = searchResults_mergedResults s"
  by (cases cb; simp split: option.splits)+

lemma fired_requests:
  "set (requests (onFire cb s)) \<subseteq> set (requests s) \<union> {x. snd (snd x) = SecondAllSearch \<or> snd (snd x) = ThirdAllSearch}"
  by (cases cb) (auto split: option.splits)

lemma guarded_step:
  assumes g: "onlyGuardedInFlight s" and e: "\<not> startsSearch e" and st: "step e s = Some s'"
  shows "onlyGuardedInFlight s' \<and>
         searchResults_total s' = fold max (receivedTotal e) (searchResults_total s)"
proof (cases e)
  case (Resolve q r)
  with st obtain k s0 where t: "takeRequest q s = Some (k, s0)" and s': "s' = onResolve k r s0"
    by (auto split: option.splits)
  from takeRequest_SomeD [OF t] obtain p
    where s0: "s0 = s\<lparr>requests := filter (\<lambda>r. fst r \<noteq> q) (requests s)\<rparr>"
      and m: "(q, p, k) \<in> set (requests s)"
    by blast
  from g m have k: "guarded k" by (force simp: onlyGuardedInFlight_def)
  from g s0 have "onlyGuardedInFlight s0" by (simp add: onlyGuardedInFlight_def)
  with k have "onlyGuardedInFlight s'"
    unfolding s' by (simp add: onlyGuardedInFlight_def shown_after_guarded)
  moreover from shown_total_after_guarded [OF k, of r s0 q] s0 Resolve
  have "searchResults_total s' = fold max (receivedTotal e) (searchResults_total s)"
    unfolding s' by simp
  ultimately show ?thesis by simp
next
  case (Reject q)
  with st obtain k s0 where t: "takeRequest q s = Some (k, s0)" and s': "s' = onReject k s0"
    by (auto split: option.splits)
  from takeRequest_SomeD [OF t] obtain p
    where s0: "s0 = s\<lparr>requests := filter (\<lambda>r. fst r \<noteq> q) (requests s)\<rparr>"
      and m: "(q, p, k) \<in> set (requests s)"
    by blast
  from g m have k: "guarded k" by (force simp: onlyGuardedInFlight_def)
  from g s0 have "onlyGuardedInFlight s0" by (simp add: onlyGuardedInFlight_def)
  with k s0 Reject show ?thesis
    unfolding s' by (simp add: onlyGuardedInFlight_def rejected_guarded)
next
  case (Fire h)
  with st obtain cb s0 where t: "takeTimer h s = Some (cb, s0)" and s': "s' = onFire cb s0"
    by (auto split: option.splits)
  from takeTimer_SomeD [OF t]
  have s0: "s0 = s\<lparr>timers := filter (\<lambda>t. fst t \<noteq> h) (timers s)\<rparr>"
    by blast
  with g have "onlyGuardedInFlight s0" by (simp add: onlyGuardedInFlight_def)
  with fired_requests [of cb s0] have "onlyGuardedInFlight s'"
    unfolding s' by (auto simp: onlyGuardedInFlight_def guarded_def)
  with s0 Fire show ?thesis
    unfolding s' by (simp add: fired_frame)
next
  case (HandleSearch p)
  with e show ?thesis by simp
next
  case ResetToInitial
  with e show ?thesis by simp
next
  case Unmounted
  with st g show ?thesis by (auto simp: onlyGuardedInFlight_def)
next
  case (Advance d)
  with st g show ?thesis by (auto simp: onlyGuardedInFlight_def)
qed

lemma guarded_run:
  assumes "onlyGuardedInFlight s" and "sameSearch es" and "run es s = Some s'"
  shows "onlyGuardedInFlight s' \<and>
         searchResults_total s' = fold max (receivedTotals es) (searchResults_total s)"
  using assms
proof (induction es arbitrary: s)
  case Nil
  then show ?case by (simp add: receivedTotals_def)
next
  case (Cons e es)
  from Cons.prems(3) obtain s1 where s1: "step e s = Some s1" and r: "run es s1 = Some s'"
    by (blast dest: run_Cons_SomeD)
  from Cons.prems(2) have e: "\<not> startsSearch e" and es: "sameSearch es"
    by (simp_all add: sameSearch_def)
  from guarded_step [OF Cons.prems(1) e s1] Cons.IH [OF _ es r]
  show ?case
    by (simp add: receivedTotals_def)
qed





lemma Max_fold: "Max (set (x # ts)) = fold max ts (x::int)"
  by (rule Max.set_eq_fold)



section \<open>Responses without a total or without a category map\<close>


lemma updateSearchResults_without_map:
  "total x = Some t \<Longrightarrow> merged_by_type x = None \<Longrightarrow>
     searchResults_total (updateSearchResults (Some x) s) = t \<and>
     searchResults_mergedResults (updateSearchResults (Some x) s) = []"
  by (simp add: updateSearchResults_def totalOrZero_def)

lemma not_hasTotal_not_notFewer: "\<not> hasTotal r \<Longrightarrow> \<not> notFewer r s"
  by (auto simp: hasTotal_def notFewer_def split: option.splits)

lemma display_unchanged_without_total:
  assumes "\<not> hasTotal r"
  shows "searchResults_total (onResolve k r s) = searchResults_total s"
    and "searchResults_mergedResults (onResolve k r s) = searchResults_mergedResults s"
  using assms not_hasTotal_not_notFewer [OF assms, of s]
  by (cases k; simp add: Let_def)+

lemma display_unguarded:
  assumes "\<not> guarded k" and "hasTotal r"
  shows "searchResults_total (onResolve k r s) = searchResults_total (updateSearchResults r s)"
    and "searchResults_mergedResults (onResolve k r s) =
           searchResults_mergedResults (updateSearchResults r s)"
  using assms by (cases k; simp add: Let_def guarded_def)+

text \<open>
  Claim C4, as the code has it. A response that is null or has no total leaves the
  displayed total and the displayed category map as they are, whichever query it answers.
  A response that has a total but no category map is not treated so: when it answers the
  TG query or the first ALL query after a failed TG query it is published, and when it
  answers another ALL query it is published if its total is not below the displayed one;
  publishing it sets the displayed total and empties the displayed category map.
\<close>

theorem response_without_total_or_map:
  "(\<not> hasTotal r \<longrightarrow>
      searchResults_total (onResolve k r s) = searchResults_total s
    \<and> searchResults_mergedResults (onResolve k r s) = searchResults_mergedResults s)
   \<and> (total x = Some t \<and> merged_by_type x = None \<longrightarrow>
        (guarded k \<and> searchResults_total s \<le> t \<longrightarrow>
           searchResults_total (onResolve k (Some x) s) = t
         \<and> searchResults_mergedResults (onResolve k (Some x) s) = [])
      \<and> (guarded k \<and> t < searchResults_total s \<longrightarrow>
           searchResults_total (onResolve k (Some x) s) = searchResults_total s
         \<and> searchResults_mergedResults (onResolve k (Some x) s) = searchResults_mergedResults s)
      \<and> (\<not> guarded k \<longrightarrow>
           searchResults_total (onResolve k (Some x) s) = t
         \<and> searchResults_mergedResults (onResolve k (Some x) s) = []))"
proof (intro conjI impI)
  assume "\<not> hasTotal r"
  then show "searchResults_total (onResolve k r s) = searchResults_total s"
    and "searchResults_mergedResults (onResolve k r s) = searchResults_mergedResults s"
    by (rule display_unchanged_without_total)+
next
  assume x: "total x = Some t \<and> merged_by_type x = None"
  then have u: "searchResults_total (updateSearchResults (Some x) s) = t"
    "searchResults_mergedResults (updateSearchResults (Some x) s) = []"
    by (simp_all add: updateSearchResults_without_map)
  from x have nf: "notFewer (Some x) s = (searchResults_total s \<le> t)"
    by (simp add: notFewer_def)
  from x have ht: "hasTotal (Some x)" by (simp add: hasTotal_def)
  {
    assume "guarded k \<and> searchResults_total s \<le> t"
    with nf u show "searchResults_total (onResolve k (Some x) s) = t"
      and "searchResults_mergedResults (onResolve k (Some x) s) = []"
      by (simp_all add: shown_after_guarded)
  }
  {
    assume "guarded k \<and> t < searchResults_total s"
    with nf show "searchResults_total (onResolve k (Some x) s) = searchResults_total s"
      and "searchResults_mergedResults (onResolve k (Some x) s) = searchResults_mergedResults s"
      by (simp_all add: shown_after_guarded)
  }
  {
    assume "\<not> guarded k"
    from display_unguarded [OF this ht, of s] u
    show "searchResults_total (onResolve k (Some x) s) = t"
      and "searchResults_mergedResults (onResolve k (Some x) s) = []"
      by simp_all
  }
qed

text \<open>
  The theorem for the first ALL query with 5 results on display: a response without a
  total changes nothing, a response with total 7 and no category map is published.
\<close>

theorem response_without_total_or_map_witness:
  "searchResults_total
     (onResolve FirstAllSearch (Some \<lparr> total = None, merged_by_type = Some [(''quark'', 3)] \<rparr>)
        (updateSearchResults (response 5 [(''aliyun'', 1)]) (handleSearch fooParams (initialState 0 :: nat state)))) = 5
   \<and> searchResults_mergedResults
     (onResolve FirstAllSearch (Some \<lparr> total = None, merged_by_type = Some [(''quark'', 3)] \<rparr>)
        (updateSearchResults (response 5 [(''aliyun'', 1)]) (handleSearch fooParams (initialState 0 :: nat state)))) =
       [(''aliyun'', 1)]
   \<and> searchResults_total
     (onResolve FirstAllSearch (Some \<lparr> total = Some 7, merged_by_type = None \<rparr>)
        (updateSearchResults (response 5 [(''aliyun'', 1)]) (handleSearch fooParams (initialState 0 :: nat state)))) = 7
   \<and> searchResults_mergedResults
     (onResolve FirstAllSearch (Some \<lparr> total = Some 7, merged_by_type = None \<rparr>)
        (updateSearchResults (response 5 [(''aliyun'', 1)]) (handleSearch fooParams (initialState 0 :: nat state)))) = []"
proof -
  let ?s = "updateSearchResults (response 5 [(''aliyun'', 1)]) (handleSearch fooParams (initialState 0 :: nat state))"
  let ?r = "Some \<lparr> total = None, merged_by_type = Some [(''quark'', 3::nat)] \<rparr>"
  let ?x = "\<lparr> total = Some 7, merged_by_type = None \<rparr> :: nat SearchResponse"
  have d: "searchResults_total ?s = 5" "searchResults_mergedResults ?s = [(''aliyun'', 1)]"
    by (simp_all add: run_simps normalizeKey_def onlyDigits_def isDigit_def)
  have h: "\<not> hasTotal ?r" by (simp add: hasTotal_def)
  have x: "total ?x = Some 7 \<and> merged_by_type ?x = None" by simp
  have g: "guarded FirstAllSearch \<and> searchResults_total ?s \<le> 7"
    using d by (simp add: guarded_def)
  from response_without_total_or_map [of ?r FirstAllSearch ?s ?x 7] h x g d
  show ?thesis by simp
qed

text \<open>
  Claim C4 as stated fails for a response without a category map: with total 5 and one
  category on display, a response to the first ALL query with total 7 and no
  \<^verbatim>\<open>merged_by_type\<close> changes the displayed total to 7 and empties the category map.
\<close>

theorem response_without_map_clears_display_counterexample:
  "map_option searchResults_total
     (run [HandleSearch fooParams, Resolve 0 (response 5 [(''aliyun'', 1)])]
        (initialState 0 :: nat state)) = Some 5
   \<and> map_option searchResults_mergedResults
     (run [HandleSearch fooParams, Resolve 0 (response 5 [(''aliyun'', 1)])]
        (initialState 0 :: nat state)) = Some [(''aliyun'', 1)]
   \<and> map_option searchResults_total
     (run [HandleSearch fooParams, Resolve 0 (response 5 [(''aliyun'', 1)]),
           Resolve 1 (Some \<lparr> total = Some 7, merged_by_type = None \<rparr>)]
        (initialState 0 :: nat state)) = Some 7
   \<and> map_option searchResults_mergedResults
     (run [HandleSearch fooParams, Resolve 0 (response 5 [(''aliyun'', 1)]),
           Resolve 1 (Some \<lparr> total = Some 7, merged_by_type = None \<rparr>)]
        (initialState 0 :: nat state)) = Some []"
  by (simp add: run_simps normalizeKey_def onlyDigits_def isDigit_def)

section \<open>The loading flag\<close>


lemma loading_onResolve: "loading (onResolve k r s) = (loading s \<and> \<not> isTgSearch k)"
  by (cases k; cases "notFewer r s"; simp add: Let_def)

lemma loading_onReject: "loading (onReject k s) = (loading s \<and> \<not> isTgSearch k)"
  by (cases k) simp_all

lemma loading_onFire: "loading (onFire cb s) = (loading s \<and> cb \<noteq> LoadingTimeout)"
  by (cases cb) (simp_all split: option.splits)

lemma addsNoLoading_refl: "addsNoLoading s s"
  by (simp add: addsNoLoading_def)

lemma addsNoLoading_trans:
  "addsNoLoading s s' \<Longrightarrow> addsNoLoading s' s'' \<Longrightarrow> addsNoLoading s s''"
  unfolding addsNoLoading_def
  by (intro conjI ballI) (force dest: bspec)+

lemma addsNoLoading_fewer:
  "set (requests s') \<subseteq> set (requests s) \<Longrightarrow> set (timers s') \<subseteq> set (timers s) \<Longrightarrow>
   nextRequest s' = nextRequest s \<Longrightarrow> nextHandle s' = nextHandle s \<Longrightarrow> addsNoLoading s s'"
  by (auto simp: addsNoLoading_def)

lemma addsNoLoading_stopUpdate: "addsNoLoading s (stopUpdate s)"
  by (rule addsNoLoading_fewer) (simp_all add: stopUpdate_timers_subset)

lemma addsNoLoading_search: "\<not> isTgSearch k \<Longrightarrow> addsNoLoading s (search p k s)"
  by (auto simp: addsNoLoading_def)

lemma addsNoLoading_startSecondAllSearch: "addsNoLoading s (startSecondAllSearch t s)"
  by (auto simp: addsNoLoading_def startSecondAllSearch_def setTimeout_def Let_def
           split: option.splits)

lemma addsNoLoading_startThirdAllSearch: "addsNoLoading s (startThirdAllSearch t s)"
  by (auto simp: addsNoLoading_def startThirdAllSearch_def setTimeout_def Let_def
           split: option.splits)

lemma addsNoLoading_update [simp]:
  "addsNoLoading s (s'\<lparr>loading := b\<rparr>) = addsNoLoading s s'"
  "addsNoLoading s (s'\<lparr>searchTime := x\<rparr>) = addsNoLoading s s'"
  "addsNoLoading s (s'\<lparr>isActivelySearching := b\<rparr>) = addsNoLoading s s'"
  "addsNoLoading s (s'\<lparr>now := t\<rparr>) = addsNoLoading s s'"
  by (simp_all add: addsNoLoading_def)

lemma addsNoLoading_after_update:
  "addsNoLoading (updateSearchResults r s) s' \<Longrightarrow> addsNoLoading s s'"
  by (simp add: addsNoLoading_def)

lemma addsNoLoading_onResolve: "addsNoLoading s (onResolve k r s)"
proof (cases k)
  case (TgSearch startTime allParams)
  have "addsNoLoading s (search allParams k' s)" if "\<not> isTgSearch k'" for k'
    using that by (rule addsNoLoading_search)
  then have "addsNoLoading s (search allParams FirstAllSearch (updateSearchResults r s))"
    "addsNoLoading s (search allParams FirstAllSearchAfterTgFailure s)"
    by (auto simp: addsNoLoading_def)
  with TgSearch show ?thesis
    by (auto simp: Let_def addsNoLoading_def)
next
  case FirstAllSearch
  then show ?thesis
    by (auto simp: Let_def addsNoLoading_startSecondAllSearch
             intro!: addsNoLoading_after_update [of r s])
next
  case FirstAllSearchAfterTgFailure
  then show ?thesis
    by (auto simp: Let_def addsNoLoading_refl addsNoLoading_startSecondAllSearch
             intro!: addsNoLoading_after_update [of r s])
next
  case SecondAllSearch
  then show ?thesis
    by (auto simp: Let_def addsNoLoading_startThirdAllSearch
             intro!: addsNoLoading_after_update [of r s])
next
  case ThirdAllSearch
  then show ?thesis
    by (auto simp: Let_def addsNoLoading_stopUpdate
             intro!: addsNoLoading_after_update [of r s])
qed

lemma addsNoLoading_onReject: "addsNoLoading s (onReject k s)"
proof (cases k)
  case (TgSearch startTime allParams)
  have "addsNoLoading s (search allParams FirstAllSearchAfterTgFailure s)"
    by (rule addsNoLoading_search) simp
  with TgSearch show ?thesis
    by (auto simp: addsNoLoading_def)
qed (simp_all add: addsNoLoading_startSecondAllSearch addsNoLoading_stopUpdate addsNoLoading_refl)

lemma addsNoLoading_onFire: "addsNoLoading s (onFire cb s)"
  by (cases cb)
     (auto simp: addsNoLoading_refl addsNoLoading_stopUpdate addsNoLoading_search
           split: option.splits)

lemma addsNoLoading_step:
  assumes "step e s = Some s'" and "\<not> startsSearch e"
  shows "addsNoLoading s s'"
proof (cases e)
  case (Resolve q r)
  with assms obtain k s0 where t: "takeRequest q s = Some (k, s0)" and s': "s' = onResolve k r s0"
    by (auto split: option.splits)
  from takeRequest_SomeD [OF t] have "addsNoLoading s s0"
    by (auto intro: addsNoLoading_fewer)
  then show ?thesis
    unfolding s' using addsNoLoading_onResolve by (rule addsNoLoading_trans)
next
  case (Reject q)
  with assms obtain k s0 where t: "takeRequest q s = Some (k, s0)" and s': "s' = onReject k s0"
    by (auto split: option.splits)
  from takeRequest_SomeD [OF t] have "addsNoLoading s s0"
    by (auto intro: addsNoLoading_fewer)
  then show ?thesis
    unfolding s' using addsNoLoading_onReject by (rule addsNoLoading_trans)
next
  case (Fire h)
  with assms obtain cb s0 where t: "takeTimer h s = Some (cb, s0)" and s': "s' = onFire cb s0"
    by (auto split: option.splits)
  from takeTimer_SomeD [OF t] have "addsNoLoading s s0"
    by (auto intro: addsNoLoading_fewer)
  then show ?thesis
    unfolding s' using addsNoLoading_onFire by (rule addsNoLoading_trans)
qed (use assms in \<open>auto simp: addsNoLoading_stopUpdate addsNoLoading_refl\<close>)

lemma loadingTracked_kept:
  "loadingTracked q h s \<Longrightarrow> addsNoLoading s s' \<Longrightarrow> loadingTracked q h s'"
  unfolding loadingTracked_def addsNoLoading_def
  by (intro conjI ballI) (force dest: bspec)+

lemma loading_step:
  assumes tr: "loadingTracked q h s" and e: "\<not> startsSearch e" and st: "step e s = Some s'"
  shows "loading s' = (loading s \<and> \<not> endsLoading q h e)"
proof (cases e)
  case (Resolve q' r)
  with st obtain k s0 where t: "takeRequest q' s = Some (k, s0)" and s': "s' = onResolve k r s0"
    by (auto split: option.splits)
  from takeRequest_SomeD [OF t] obtain p
    where s0: "s0 = s\<lparr>requests := filter (\<lambda>r. fst r \<noteq> q') (requests s)\<rparr>"
      and m: "(q', p, k) \<in> set (requests s)"
    by blast
  from tr m have "isTgSearch k = (q' = q)"
    by (force simp: loadingTracked_def)
  with s0 Resolve show ?thesis
    unfolding s' by (simp add: loading_onResolve)
next
  case (Reject q')
  with st obtain k s0 where t: "takeRequest q' s = Some (k, s0)" and s': "s' = onReject k s0"
    by (auto split: option.splits)
  from takeRequest_SomeD [OF t] obtain p
    where s0: "s0 = s\<lparr>requests := filter (\<lambda>r. fst r \<noteq> q') (requests s)\<rparr>"
      and m: "(q', p, k) \<in> set (requests s)"
    by blast
  from tr m have "isTgSearch k = (q' = q)"
    by (force simp: loadingTracked_def)
  with s0 Reject show ?thesis
    unfolding s' by (simp add: loading_onReject)
next
  case (Fire h')
  with st obtain cb s0 where t: "takeTimer h' s = Some (cb, s0)" and s': "s' = onFire cb s0"
    by (auto split: option.splits)
  from takeTimer_SomeD [OF t] obtain due
    where s0: "s0 = s\<lparr>timers := filter (\<lambda>t. fst t \<noteq> h') (timers s)\<rparr>"
      and m: "(h', due, cb) \<in> set (timers s)"
    by blast
  from tr m have "(cb = LoadingTimeout) = (h' = h)"
    by (force simp: loadingTracked_def)
  with s0 Fire show ?thesis
    unfolding s' by (simp add: loading_onFire)
qed (use e st in auto)

lemma loading_run:
  assumes "loadingTracked q h s" and "sameSearch es" and "run es s = Some s'"
  shows "loading s' = (loading s \<and> (\<forall>e \<in> set es. \<not> endsLoading q h e))"
  using assms
proof (induction es arbitrary: s)
  case Nil
  then show ?case by simp
next
  case (Cons e es)
  from Cons.prems(3) obtain s1 where s1: "step e s = Some s1" and r: "run es s1 = Some s'"
    by (blast dest: run_Cons_SomeD)
  from Cons.prems(2) have e: "\<not> startsSearch e" and es: "sameSearch es"
    by (simp_all add: sameSearch_def)
  from loadingTracked_kept [OF Cons.prems(1) addsNoLoading_step [OF s1 e]]
  have "loadingTracked q h s1" .
  from Cons.IH [OF this es r] loading_step [OF Cons.prems(1) e s1]
  show ?case by auto
qed

lemma now_step: "step e s = Some s' \<Longrightarrow> now s \<le> now s'"
proof (cases e)
  case (Resolve q r)
  assume "step e s = Some s'"
  with Resolve obtain k s0 where t: "takeRequest q s = Some (k, s0)" and s': "s' = onResolve k r s0"
    by (auto split: option.splits)
  have "now (onResolve k r s0) = now s0"
    by (cases k; cases "notFewer r s0"; simp add: Let_def)
  with takeRequest_SomeD [OF t] show ?thesis
    unfolding s' by auto
next
  case (Reject q)
  assume "step e s = Some s'"
  with Reject obtain k s0 where t: "takeRequest q s = Some (k, s0)" and s': "s' = onReject k s0"
    by (auto split: option.splits)
  have "now (onReject k s0) = now s0"
    by (cases k) simp_all
  with takeRequest_SomeD [OF t] show ?thesis
    unfolding s' by auto
next
  case (Fire h)
  assume "step e s = Some s'"
  with Fire obtain cb s0 where t: "takeTimer h s = Some (cb, s0)" and s': "s' = onFire cb s0"
    by (auto split: option.splits)
  have "now (onFire cb s0) = now s0"
    by (cases cb) (simp_all split: option.splits)
  with takeTimer_SomeD [OF t] show ?thesis
    unfolding s' by auto
qed (auto simp: handleSearch_fields resetToInitial_fields)

lemma now_run: "run es s = Some s' \<Longrightarrow> now s \<le> now s'"
proof (induction es arbitrary: s)
  case Nil
  then show ?case by simp
next
  case (Cons e es)
  then obtain s1 where "step e s = Some s1" "run es s1 = Some s'"
    by (blast dest: run_Cons_SomeD)
  with Cons.IH [of s1] now_step [of e s s1] show ?case by simp
qed


lemma loadingTracked_handleSearch:
  assumes wf: "wellFormed s" and quiet: "nothingLoading s"
  shows "loadingTracked (nextRequest s) (nextHandle s) (handleSearch p s)"
proof -
  from wf have "\<forall>x \<in> set (requests s). fst x < nextRequest s"
    and "\<forall>t \<in> set (timers s). fst t < nextHandle s"
    by (auto simp: wellFormed_def)
  with quiet stopUpdate_timers_subset [of s] show ?thesis
    unfolding loadingTracked_def nothingLoading_def handleSearch_fields
    by (intro conjI ballI) (force dest: bspec)+
qed

lemma loading_timeout_not_early:
  assumes wf: "wellFormed s"
    and run: "run es (handleSearch p s) = Some s'"
    and fired: "Fire (nextHandle s) \<in> set es"
  shows "now s + 5000 \<le> now s'"
proof -
  from fired obtain es1 es2 where es: "es = es1 @ Fire (nextHandle s) # es2"
    by (auto dest: split_list)
  with run obtain s1 where s1: "run es1 (handleSearch p s) = Some s1"
    and rest: "run (Fire (nextHandle s) # es2) s1 = Some s'"
    by (auto simp: run_append split: option.splits)
  then obtain s2 where f: "step (Fire (nextHandle s)) s1 = Some s2" and r2: "run es2 s2 = Some s'"
    by (blast dest: run_Cons_SomeD)
  have "now (stopUpdate s) + 5000 \<le> now s1"
  proof (rule fire_needs_due [OF wellFormed_stopUpdate [OF wf] _ _ _ ])
    show "timers (handleSearch p s) =
            timers (stopUpdate s) @ [(nextHandle (stopUpdate s), now (stopUpdate s) + 5000, LoadingTimeout)]"
      by (simp add: handleSearch_fields)
    show "nextHandle (stopUpdate s) < nextHandle (handleSearch p s)"
      by (simp add: handleSearch_fields)
    show "run es1 (handleSearch p s) = Some s1" by (rule s1)
    from f show "step (Fire (nextHandle (stopUpdate s))) s1 \<noteq> None" by simp
  qed
  moreover from now_step [OF f] now_run [OF r2] have "now s1 \<le> now s'" by simp
  ultimately show ?thesis by simp
qed

text \<open>
  Claim C7, as the code has it. \<^verbatim>\<open>handleSearch\<close> sets the loading flag and registers a
  timeout of 5000. When the search starts in a state the page can reach in which no TG
  query of an earlier search is in flight and no earlier loading timeout is pending, then,
  as long as the user starts no other search and does not reset the page, the flag is set
  exactly until the TG query of the search is fulfilled or rejected or the timeout of the
  search fires, whichever comes first; the timeout fires no earlier than 5000 after the
  start. The callback of the timeout clears the flag in whatever state it runs: it is not
  tied to the search that started it.
\<close>

theorem loading_until_tg_or_timeout:
  assumes reach: "run es0 (initialState t0) = Some s"
    and quiet: "nothingLoading s"
    and same: "sameSearch es"
    and run: "run (HandleSearch p # es) s = Some s'"
  shows "loading (handleSearch p s)
       \<and> timers (handleSearch p s) =
           timers (stopUpdate s) @ [(nextHandle s, now s + 5000, LoadingTimeout)]
       \<and> loading s' = (\<forall>e \<in> set es. \<not> endsLoading (nextRequest s) (nextHandle s) e)
       \<and> (Fire (nextHandle s) \<in> set es \<longrightarrow> now s + 5000 \<le> now s')
       \<and> (\<forall>x. \<not> loading (onFire LoadingTimeout x))"
proof -
  note wf = wellFormed_reachable [OF reach]
  from run have r: "run es (handleSearch p s) = Some s'" by simp
  from loading_run [OF loadingTracked_handleSearch [OF wf quiet] same r]
  have "loading s' = (\<forall>e \<in> set es. \<not> endsLoading (nextRequest s) (nextHandle s) e)"
    by (simp add: handleSearch_fields)
  moreover have "now s + 5000 \<le> now s'" if "Fire (nextHandle s) \<in> set es"
    using loading_timeout_not_early [OF wf r that] .
  ultimately show ?thesis
    by (simp add: handleSearch_fields)
qed

text \<open>The theorem for a first search whose TG query is still in flight after 5000.\<close>

theorem loading_until_tg_or_timeout_witness:
  "\<exists>s'. run [HandleSearch fooParams, Advance 5000, Fire 1] (initialState 0 :: nat state) = Some s'
       \<and> \<not> loading s' \<and> 5000 \<le> now s'"
proof -
  let ?init = "initialState 0 :: nat state"
  let ?then = "[Advance 5000, Fire 1] :: nat event list"
  have e: "run [] (initialState 0) = Some ?init" by simp
  have q: "nothingLoading ?init" by (simp add: nothingLoading_def initialState_def)
  have s: "sameSearch ?then" by (simp add: sameSearch_def)
  have n: "nextHandle ?init = 1" "nextRequest ?init = 0" "now ?init = 0"
    by (simp_all add: initialState_def)
  have "\<exists>s'. run (HandleSearch fooParams # ?then) ?init = Some s'"
    by (simp add: run_simps)
  then obtain s' where s': "run (HandleSearch fooParams # ?then) ?init = Some s'"
    by blast
  note T = loading_until_tg_or_timeout [OF e q s s', unfolded n]
  from T have "loading s' = (\<forall>e \<in> set ?then. \<not> endsLoading 0 1 e)"
    by blast
  then have "\<not> loading s'"
    by simp
  moreover from T have "Fire 1 \<in> set ?then \<longrightarrow> 0 + 5000 \<le> now s'"
    by blast
  then have "5000 \<le> now s'"
    by simp
  ultimately show ?thesis using s' by blast
qed

text \<open>
  Claim C7 as stated fails: the timeout of one search clears the loading flag of another.
  The search for \<^verbatim>\<open>bar\<close> starts at 4000; at 5000 the timeout of the search for
  \<^verbatim>\<open>foo\<close> (timer 1) fires and clears the flag, while the TG query of the search for
  \<^verbatim>\<open>bar\<close> (request 1) is in flight and its own timeout (timer 2, due at 9000) is pending.
\<close>

theorem loading_cleared_by_earlier_timeout_counterexample:
  "map_option loading
     (run [HandleSearch fooParams, Advance 4000, HandleSearch barParams, Advance 1000]
        (initialState 0 :: nat state)) = Some True
   \<and> map_option loading
     (run [HandleSearch fooParams, Advance 4000, HandleSearch barParams, Advance 1000, Fire 1]
        (initialState 0 :: nat state)) = Some False
   \<and> map_option now
     (run [HandleSearch fooParams, Advance 4000, HandleSearch barParams, Advance 1000, Fire 1]
        (initialState 0 :: nat state)) = Some 5000
   \<and> map_option requests
     (run [HandleSearch fooParams, Advance 4000, HandleSearch barParams, Advance 1000, Fire 1]
        (initialState 0 :: nat state)) =
     Some [(0, fooParams\<lparr>src := Some ''tg''\<rparr>, TgSearch 0 (fooParams\<lparr>src := Some ''all''\<rparr>)),
           (1, barParams\<lparr>src := Some ''tg''\<rparr>, TgSearch 4000 (barParams\<lparr>src := Some ''all''\<rparr>))]
   \<and> map_option timers
     (run [HandleSearch fooParams, Advance 4000, HandleSearch barParams, Advance 1000, Fire 1]
        (initialState 0 :: nat state)) = Some [(2, 9000, LoadingTimeout)]"
  by (simp add: run_simps)

section \<open>A search whose TG query fails\<close>


lemma loading_stays_off_step:
  assumes "\<not> startsSearch e" and "step e s = Some s'" and "\<not> loading s"
  shows "\<not> loading s'"
proof (cases e)
  case (Resolve q r)
  with assms(2) obtain k s0 where t: "takeRequest q s = Some (k, s0)" and s': "s' = onResolve k r s0"
    by (auto split: option.splits)
  from takeRequest_SomeD [OF t] assms(3) show ?thesis
    unfolding s' by (auto simp: loading_onResolve)
next
  case (Reject q)
  with assms(2) obtain k s0 where t: "takeRequest q s = Some (k, s0)" and s': "s' = onReject k s0"
    by (auto split: option.splits)
  from takeRequest_SomeD [OF t] assms(3) show ?thesis
    unfolding s' by (auto simp: loading_onReject)
next
  case (Fire h)
  with assms(2) obtain cb s0 where t: "takeTimer h s = Some (cb, s0)" and s': "s' = onFire cb s0"
    by (auto split: option.splits)
  from takeTimer_SomeD [OF t] assms(3) show ?thesis
    unfolding s' by (auto simp: loading_onFire)
qed (use assms in auto)

lemma loading_stays_off:
  assumes "sameSearch es" and "run es s = Some s'" and "\<not> loading s"
  shows "\<not> loading s'"
  using assms
proof (induction es arbitrary: s)
  case Nil
  then show ?case by simp
next
  case (Cons e es)
  from Cons.prems(2) obtain s1 where s1: "step e s = Some s1" and r: "run es s1 = Some s'"
    by (blast dest: run_Cons_SomeD)
  from Cons.prems(1) have e: "\<not> startsSearch e" and es: "sameSearch es"
    by (simp_all add: sameSearch_def)
  from loading_stays_off_step [OF e s1 Cons.prems(3)] Cons.IH [OF es r]
  show ?case by simp
qed

text \<open>The state after a search has started and its TG query has failed or was malformed.\<close>

lemma tg_failed:
  assumes wf: "wellFormed s0"
  shows "run [HandleSearch p, Reject (nextRequest s0)] s0 =
           Some (onReject (TgSearch (now s0) (p\<lparr>src := Some ''all''\<rparr>))
                   ((handleSearch p s0)\<lparr>requests := filter (\<lambda>x. fst x \<noteq> nextRequest s0)
                                                       (requests (handleSearch p s0))\<rparr>))"
    and "run [HandleSearch p, Resolve (nextRequest s0) rA] s0 =
           Some (onResolve (TgSearch (now s0) (p\<lparr>src := Some ''all''\<rparr>)) rA
                   ((handleSearch p s0)\<lparr>requests := filter (\<lambda>x. fst x \<noteq> nextRequest s0)
                                                       (requests (handleSearch p s0))\<rparr>))"
proof -
  let ?hs = "handleSearch p s0"
  have m: "(nextRequest s0, p\<lparr>src := Some ''tg''\<rparr>, TgSearch (now s0) (p\<lparr>src := Some ''all''\<rparr>))
           \<in> set (requests ?hs)"
    by (simp add: handleSearch_fields)
  note wfh = wellFormed_handleSearch [OF wf, of p]
  have 1: "step (HandleSearch p) s0 = Some ?hs" by simp
  show "run [HandleSearch p, Reject (nextRequest s0)] s0 =
           Some (onReject (TgSearch (now s0) (p\<lparr>src := Some ''all''\<rparr>))
                   (?hs\<lparr>requests := filter (\<lambda>x. fst x \<noteq> nextRequest s0) (requests ?hs)\<rparr>))"
    using 1 step_Reject_inflight [OF wfh m]
    by (simp only: run.simps option.case)
  show "run [HandleSearch p, Resolve (nextRequest s0) rA] s0 =
           Some (onResolve (TgSearch (now s0) (p\<lparr>src := Some ''all''\<rparr>)) rA
                   (?hs\<lparr>requests := filter (\<lambda>x. fst x \<noteq> nextRequest s0) (requests ?hs)\<rparr>))"
    using 1 step_Resolve_inflight [OF wfh m, of rA]
    by (simp only: run.simps option.case)
qed

lemma after_tg_failed:
  assumes wf: "wellFormed s0"
    and s1: "s1 = search (p\<lparr>src := Some ''all''\<rparr>) FirstAllSearchAfterTgFailure
                   ((handleSearch p s0)\<lparr>requests := filter (\<lambda>x. fst x \<noteq> nextRequest s0)
                                                       (requests (handleSearch p s0)),
                                         loading := False\<rparr>)"
  shows "searchResults_total s1 = 0 \<and> searchResults_mergedResults s1 = [] \<and> \<not> loading s1
       \<and> (Suc (nextRequest s0), p\<lparr>src := Some ''all''\<rparr>, FirstAllSearchAfterTgFailure)
            \<in> set (requests s1)
       \<and> requests s1 = requests s0 @ [(Suc (nextRequest s0), p\<lparr>src := Some ''all''\<rparr>,
                                         FirstAllSearchAfterTgFailure)]"
proof -
  from wf have "filter (\<lambda>x. fst x \<noteq> nextRequest s0) (requests s0) = requests s0"
    by (auto simp: wellFormed_def filter_id_conv)
  then show ?thesis
    unfolding s1 by (simp add: handleSearch_fields)
qed


text \<open>
  Claim C8. A search starts in a state the page can reach. When its TG query is rejected,
  or fulfilled with a null response or a response without a total, nothing is published
  (the display stays cleared), the loading flag is cleared and the first ALL query is in
  flight. When the TG query is rejected and the first ALL query is then fulfilled with
  total 50, the loading flag is off and the displayed total is 50; and when the search
  started with no query in flight, then after any further events of this sequence the
  flag is still off and the displayed total is the maximum of 50 and the totals received
  since (so it is 50 unless a later response has more).
\<close>

theorem failed_tg_still_queries_all:
  assumes reach: "run es0 (initialState t0) = Some s0"
  shows "(\<exists>s1. run [HandleSearch p, Reject (nextRequest s0)] s0 = Some s1
            \<and> searchResults_total s1 = 0 \<and> searchResults_mergedResults s1 = [] \<and> \<not> loading s1
            \<and> (Suc (nextRequest s0), p\<lparr>src := Some ''all''\<rparr>, FirstAllSearchAfterTgFailure)
                 \<in> set (requests s1))
       \<and> (\<not> hasTotal rA \<longrightarrow>
            (\<exists>s1. run [HandleSearch p, Resolve (nextRequest s0) rA] s0 = Some s1
               \<and> searchResults_total s1 = 0 \<and> searchResults_mergedResults s1 = [] \<and> \<not> loading s1
               \<and> (Suc (nextRequest s0), p\<lparr>src := Some ''all''\<rparr>, FirstAllSearchAfterTgFailure)
                    \<in> set (requests s1)))
       \<and> (total rB = Some 50 \<longrightarrow>
            (\<exists>s2. run [HandleSearch p, Reject (nextRequest s0),
                        Resolve (Suc (nextRequest s0)) (Some rB)] s0 = Some s2
               \<and> \<not> loading s2 \<and> searchResults_total s2 = 50))
       \<and> (total rB = Some 50 \<and> requests s0 = [] \<and> sameSearch es
            \<and> run ([HandleSearch p, Reject (nextRequest s0),
                     Resolve (Suc (nextRequest s0)) (Some rB)] @ es) s0 = Some s' \<longrightarrow>
            \<not> loading s' \<and> searchResults_total s' = Max (set (50 # receivedTotals es)))"
proof -
  note wf = wellFormed_reachable [OF reach]
  let ?q = "nextRequest s0"
  let ?all = "p\<lparr>src := Some ''all''\<rparr>"
  define s1 where "s1 = search ?all FirstAllSearchAfterTgFailure
                   ((handleSearch p s0)\<lparr>requests := filter (\<lambda>x. fst x \<noteq> ?q)
                                                       (requests (handleSearch p s0)),
                                         loading := False\<rparr>)"
  note a = after_tg_failed [OF wf s1_def]
  have rej: "run [HandleSearch p, Reject ?q] s0 = Some s1"
    unfolding s1_def tg_failed(1) [OF wf] by simp
  have res: "run [HandleSearch p, Resolve ?q rA] s0 = Some s1" if "\<not> hasTotal rA"
    unfolding s1_def tg_failed(2) [OF wf] using that by simp
  have wf1: "wellFormed s1"
    using wellFormed_run [OF wf rej] .
  from a have m: "(Suc ?q, ?all, FirstAllSearchAfterTgFailure) \<in> set (requests s1)"
    by blast
  define s2 where "s2 = onResolve FirstAllSearchAfterTgFailure (Some rB)
                          (s1\<lparr>requests := filter (\<lambda>x. fst x \<noteq> Suc ?q) (requests s1)\<rparr>)"
  have b: "step (Resolve (Suc ?q) (Some rB)) s1 = Some s2"
    unfolding s2_def by (rule step_Resolve_inflight [OF wf1 m])
  have run2: "run [HandleSearch p, Reject ?q, Resolve (Suc ?q) (Some rB)] s0 = Some s2"
  proof -
    have "run ([HandleSearch p, Reject ?q] @ [Resolve (Suc ?q) (Some rB)]) s0 = Some s2"
      unfolding run_append rej using b by simp
    then show ?thesis by simp
  qed
  have s2: "\<not> loading s2 \<and> searchResults_total s2 = 50
            \<and> requests s2 = filter (\<lambda>x. fst x \<noteq> Suc ?q) (requests s1)"
    if "total rB = Some 50"
    using that a unfolding s2_def
    by (simp add: hasTotal_def Let_def total_updateSearchResults totalOrZero_def)
  have fin: "\<not> loading s' \<and> searchResults_total s' = Max (set (50 # receivedTotals es))"
    if t: "total rB = Some 50" and idle: "requests s0 = []" and same: "sameSearch es"
      and run: "run ([HandleSearch p, Reject ?q, Resolve (Suc ?q) (Some rB)] @ es) s0 = Some s'"
  proof -
    from run run2 have r: "run es s2 = Some s'"
      by (simp only: run_append option.case)
    from a idle s2 [OF t] have "requests s2 = []" by simp
    then have g: "onlyGuardedInFlight s2" by (simp add: onlyGuardedInFlight_def)
    from guarded_run [OF g same r] s2 [OF t] loading_stays_off [OF same r]
    show ?thesis
      by (simp only: Max_fold) simp
  qed
  from rej a res run2 s2 fin show ?thesis
    by blast
qed

text \<open>
  The theorem for a first search whose TG query is rejected, whose first ALL query has
  total 50 and whose second ALL query is rejected.
\<close>

theorem failed_tg_still_queries_all_witness:
  "\<exists>s'. run [HandleSearch fooParams, Reject 0, Resolve 1 (response 50 []),
             Advance 2000, Fire 2, Reject 2] (initialState 0 :: nat state) = Some s'
       \<and> \<not> loading s' \<and> searchResults_total s' = 50"
proof -
  let ?init = "initialState 0 :: nat state"
  let ?then = "[Advance 2000, Fire 2, Reject 2] :: nat event list"
  let ?rB = "\<lparr> total = Some 50, merged_by_type = Some [] \<rparr> :: nat SearchResponse"
  have e: "run [] (initialState 0) = Some ?init" by simp
  have n: "nextRequest ?init = 0" by (simp add: initialState_def)
  have "\<exists>s'. run ([HandleSearch fooParams, Reject 0, Resolve (Suc 0) (Some ?rB)] @ ?then) ?init = Some s'"
    by (simp add: run_simps)
  then obtain s'
    where s': "run ([HandleSearch fooParams, Reject 0, Resolve (Suc 0) (Some ?rB)] @ ?then) ?init = Some s'"
    by blast
  have h: "total ?rB = Some 50 \<and> requests ?init = [] \<and> sameSearch ?then
           \<and> run ([HandleSearch fooParams, Reject 0, Resolve (Suc 0) (Some ?rB)] @ ?then) ?init = Some s'"
    using s' by (simp add: sameSearch_def initialState_def)
  note T = failed_tg_still_queries_all [OF e, of fooParams None ?rB ?then s', unfolded n]
  from T h have "\<not> loading s' \<and> searchResults_total s' = Max (set (50 # receivedTotals ?then))"
    by blast
  then have "\<not> loading s' \<and> searchResults_total s' = 50"
    by (simp add: receivedTotals_def)
  moreover from s' have "run [HandleSearch fooParams, Reject 0, Resolve 1 (response 50 []),
             Advance 2000, Fire 2, Reject 2] ?init = Some s'"
    by (simp add: response_def)
  ultimately show ?thesis by blast
qed


end
